theory Spec2Isabelle
  imports Main "HOL-Library.Word" "HOL-Library.Sublist" "HOL-Library.Multiset"
begin

section \<open>JavaScript strings\<close>

text \<open>
  A JavaScript string is a sequence of UTF-16 code units; \<open>length\<close>, \<open>substring\<close>,
  \<open>startsWith\<close> and a regular expression without the \<open>u\<close> flag all count code units.
  \<open>js\<close> embeds an ASCII literal.
\<close>

type_synonym jschar = "16 word"

type_synonym jsstring = "jschar list"

definition js :: "string \<Rightarrow> jsstring" where
  "js s = map of_char s"

text \<open>The escape \<open>\d\<close>: the ASCII digits 0 to 9 only.\<close>

definition is_digit :: "jschar \<Rightarrow> bool" where
  "is_digit c = (0x30 \<le> c \<and> c \<le> 0x39)"

text \<open>
  The escape \<open>\s\<close>, which is also what \<open>String.prototype.trim\<close> removes: the ECMAScript
  WhiteSpace and LineTerminator code points.
\<close>

definition is_space :: "jschar \<Rightarrow> bool" where
  "is_space c = (c \<in> {0x09, 0x0A, 0x0B, 0x0C, 0x0D, 0x20, 0xA0, 0x1680, 0x2028, 0x2029,
                        0x202F, 0x205F, 0x3000, 0xFEFF} \<or> (0x2000 \<le> c \<and> c \<le> 0x200A))"

definition trim :: "jsstring \<Rightarrow> jsstring" where
  "trim s = rev (dropWhile is_space (rev (dropWhile is_space s)))"

definition startsWith :: "jsstring \<Rightarrow> jsstring \<Rightarrow> bool" where
  "startsWith s p = (take (length p) s = p)"

definition substring :: "jsstring \<Rightarrow> nat \<Rightarrow> jsstring" where
  "substring s i = drop i s"

definition substring2 :: "jsstring \<Rightarrow> nat \<Rightarrow> nat \<Rightarrow> jsstring" where
  "substring2 s i j = take (max i j - min i j) (drop (min i j) s)"

section \<open>Regular expressions\<close>

text \<open>
  The fragment of the ECMAScript pattern language that the program uses: a character
  class or escape, concatenation, alternation, the greedy \<open>?\<close>, and a greedy counted
  repetition \<open>{m,}\<close> or \<open>{m,n}\<close> of a character class.
\<close>

datatype regex =
    Cls "jschar \<Rightarrow> bool"
  | Seq regex regex
  | Alt regex regex
  | Opt regex
  | Rep nat "nat option" "jschar \<Rightarrow> bool"

text \<open>
  The greedy repetition of a class, at least \<open>m\<close> and at most \<open>mx\<close> times: it takes a
  character whenever it may, and gives characters back one at a time when the rest of the
  pattern (the continuation \<open>k\<close>) fails.
\<close>

fun rep :: "nat \<Rightarrow> nat option \<Rightarrow> (jschar \<Rightarrow> bool) \<Rightarrow> jsstring
    \<Rightarrow> (jsstring \<Rightarrow> jsstring option) \<Rightarrow> jsstring option" where
  "rep m mx p [] k = (if m = 0 then k [] else None)"
| "rep m mx p (c # cs) k =
    (if p c \<and> mx \<noteq> Some 0 then
       (case rep (m - 1) (map_option (\<lambda>n. n - 1) mx) p cs k of
          Some r \<Rightarrow> Some r
        | None \<Rightarrow> if m = 0 then k (c # cs) else None)
     else if m = 0 then k (c # cs) else None)"

text \<open>
  The backtracking matcher of ECMAScript, in continuation-passing style: \<open>bt r s k\<close> matches
  \<open>r\<close> at the head of \<open>s\<close>, tries the alternatives in the priority order of the language
  (left alternative first, longer repetition first) and hands the unread input to \<open>k\<close>;
  the first alternative that \<open>k\<close> accepts wins.
\<close>

fun bt :: "regex \<Rightarrow> jsstring \<Rightarrow> (jsstring \<Rightarrow> jsstring option) \<Rightarrow> jsstring option" where
  "bt (Cls p) s k = (case s of [] \<Rightarrow> None | c # cs \<Rightarrow> if p c then k cs else None)"
| "bt (Seq a b) s k = bt a s (\<lambda>s'. bt b s' k)"
| "bt (Alt a b) s k = (case bt a s k of Some r \<Rightarrow> Some r | None \<Rightarrow> bt b s k)"
| "bt (Opt a) s k = (case bt a s k of Some r \<Rightarrow> Some r | None \<Rightarrow> k s)"
| "bt (Rep m mx p) s k = rep m mx p s k"

text \<open>
  \<open>RegExp.prototype.test\<close> for a pattern written \<open>^r$\<close> (no \<open>m\<close> flag): the match has to
  begin at index 0 and to end at the end of the input.
\<close>

definition test_anchored :: "regex \<Rightarrow> jsstring \<Rightarrow> bool" where
  "test_anchored r s = (bt r s (\<lambda>rest. if rest = [] then Some rest else None) \<noteq> None)"

text \<open>
  The scan of a pattern with the \<open>g\<close> flag: the leftmost match from the current position,
  then on from the end of that match; a position with no match is skipped, and after an
  empty match the position moves on by one.
\<close>

function match_all :: "regex \<Rightarrow> jsstring \<Rightarrow> jsstring list" where
  "match_all r s =
     (case bt r s Some of
        Some rest \<Rightarrow>
          if length rest < length s
          then take (length s - length rest) s # match_all r rest
          else [] # (case s of [] \<Rightarrow> [] | c # cs \<Rightarrow> match_all r cs)
      | None \<Rightarrow> (case s of [] \<Rightarrow> [] | c # cs \<Rightarrow> match_all r cs))"
  by pat_completeness auto
termination
  by (relation "measure (\<lambda>(r, s). length s)") auto

declare match_all.simps [simp del]

text \<open>\<open>String.prototype.match\<close> with a global pattern: \<open>null\<close> when nothing matches.\<close>

definition String_match :: "jsstring \<Rightarrow> regex \<Rightarrow> jsstring list option" where
  "String_match s r = (let ms = match_all r s in if ms = [] then None else Some ms)"

text \<open>\<open>String.prototype.replace\<close> with a global pattern and a constant replacement.\<close>

function replace_all :: "regex \<Rightarrow> jsstring \<Rightarrow> jsstring \<Rightarrow> jsstring" where
  "replace_all r repl s =
     (case bt r s Some of
        Some rest \<Rightarrow>
          if length rest < length s
          then repl @ replace_all r repl rest
          else repl @ (case s of [] \<Rightarrow> [] | c # cs \<Rightarrow> c # replace_all r repl cs)
      | None \<Rightarrow> (case s of [] \<Rightarrow> [] | c # cs \<Rightarrow> c # replace_all r repl cs))"
  by pat_completeness auto
termination
  by (relation "measure (\<lambda>(r, repl, s). length s)") auto

declare replace_all.simps [simp del]

section \<open>PhoneParser\<close>

text \<open>The class \<open>[^\d+]\<close> of \<open>normalizePhone\<close>.\<close>

definition not_digit_plus :: "jschar \<Rightarrow> bool" where
  "not_digit_plus c = (\<not> (is_digit c \<or> c = 0x2B))"

text \<open>The patterns \<open>9\d{9}\<close> and \<open>\d{10}\<close>, tested between \<open>^\<close> and \<open>$\<close>.\<close>

definition nine_and_nine_digits :: regex where
  "nine_and_nine_digits = Seq (Cls (\<lambda>c. c = 0x39)) (Rep 9 (Some 9) is_digit)"

definition ten_digits :: regex where
  "ten_digits = Rep 10 (Some 10) is_digit"

definition normalizePhone :: "jsstring \<Rightarrow> jsstring" where
  "normalizePhone phone =
     (let normalized = replace_all (Cls not_digit_plus) [] phone in
      if startsWith normalized (js ''8'') then js ''+7'' @ substring normalized 1
      else if startsWith normalized (js ''7'') \<and> \<not> startsWith normalized (js ''+7'')
        then js ''+'' @ normalized
      else if test_anchored nine_and_nine_digits normalized then js ''+7'' @ normalized
      else if test_anchored ten_digits normalized then js ''+7'' @ normalized
      else normalized)"

text \<open>The class \<open>[\d\s\-\(\)]\<close> of the phone pattern.\<close>

definition phone_body :: "jschar \<Rightarrow> bool" where
  "phone_body c = (is_digit c \<or> is_space c \<or> c = 0x2D \<or> c = 0x28 \<or> c = 0x29)"

text \<open>The pattern \<open>(?:\+?\d[\d\s\-\(\)]{7,}\d|\d[\d\s\-\(\)]{7,}\d)\<close>.\<close>

definition phoneRegex :: regex where
  "phoneRegex =
     Alt (Seq (Opt (Cls (\<lambda>c. c = 0x2B)))
            (Seq (Cls is_digit) (Seq (Rep 7 None phone_body) (Cls is_digit))))
         (Seq (Cls is_digit) (Seq (Rep 7 None phone_body) (Cls is_digit)))"

record parsed_phone =
  original :: jsstring
  normalized :: jsstring

definition parsePhoneNumbers :: "jsstring \<Rightarrow> parsed_phone list" where
  "parsePhoneNumbers text =
     (let matches = (case String_match text phoneRegex of Some ms \<Rightarrow> ms | None \<Rightarrow> [])
      in map (\<lambda>phone. \<lparr>original = trim phone, normalized = normalizePhone phone\<rparr>) matches)"

section \<open>The contact store\<close>

text \<open>
  The two tables of the SQLite file. A row of \<open>contacts\<close> carries the columns of the
  schema; \<open>phone\<close> and \<open>normalized_phone\<close> are \<open>NOT NULL\<close> and every caller binds a
  string to them, the other text columns may hold \<open>NULL\<close> (\<open>None\<close>). A timestamp is the
  reading of \<open>CURRENT_TIMESTAMP\<close>, handed to each operation as \<open>now\<close>. Text is held as
  the code units JavaScript reads back.
\<close>

type_synonym timestamp = nat

record contact =
  id' :: nat
  phone :: jsstring
  normalized_phone :: jsstring
  name :: "jsstring option"
  company :: "jsstring option"
  context' :: "jsstring option"
  created_at :: timestamp
  updated_at :: timestamp

record parsed_message =
  pm_id :: nat
  message_id :: int
  chat_id :: int
  contact_id :: "nat option"
  original_text :: "jsstring option"
  pm_created_at :: timestamp

text \<open>
  The state of the database file as one connection sees it: the rows of both tables in
  rowid order, the \<open>AUTOINCREMENT\<close> counters of \<open>sqlite_sequence\<close>, the rowid of the last
  successful insert (what \<open>this.lastID\<close> reads), and whether the file could be opened: the
  program only logs a failure to open it and goes on, and every later statement then
  calls back with an error.
\<close>

record store =
  contacts :: "contact list"
  contacts_seq :: nat
  parsed_messages :: "parsed_message list"
  parsed_messages_seq :: nat
  last_insert_rowid :: nat
  available :: bool

datatype sqlite_error = SQLITE_CANTOPEN | SQLITE_ERROR

definition empty_store :: store where
  "empty_store = \<lparr>contacts = [], contacts_seq = 0, parsed_messages = [],
     parsed_messages_seq = 0, last_insert_rowid = 0, available = True\<rparr>"

text \<open>\<open>AUTOINCREMENT\<close>: one more than the largest rowid the table has ever held.\<close>

definition next_contact_id :: "store \<Rightarrow> nat" where
  "next_contact_id db = Suc (fold max (map id' (contacts db)) (contacts_seq db))"

definition next_parsed_message_id :: "store \<Rightarrow> nat" where
  "next_parsed_message_id db = Suc (fold max (map pm_id (parsed_messages db)) (parsed_messages_seq db))"

text \<open>
  \<open>database.saveContact\<close> of server.js: \<open>INSERT OR REPLACE\<close>. Every row that holds the new
  \<open>phone\<close> or the new \<open>normalized_phone\<close> (both columns are \<open>UNIQUE\<close>) is deleted, then the new
  row is inserted under a fresh id, with both timestamps at their default.
\<close>

definition saveContact :: "jsstring \<Rightarrow> jsstring \<Rightarrow> jsstring option \<Rightarrow> jsstring option
    \<Rightarrow> jsstring option \<Rightarrow> timestamp \<Rightarrow> store \<Rightarrow> sqlite_error + nat \<times> store" where
  "saveContact ph np nm co cx now db =
     (if \<not> available db then Inl SQLITE_CANTOPEN
      else
        let lastID = next_contact_id db;
            row = \<lparr>id' = lastID, phone = ph, normalized_phone = np, name = nm, company = co,
                    context' = cx, created_at = now, updated_at = now\<rparr>;
            kept = filter (\<lambda>r. phone r \<noteq> ph \<and> normalized_phone r \<noteq> np) (contacts db)
        in Inr (lastID, db\<lparr>contacts := kept @ [row], contacts_seq := lastID,
                            last_insert_rowid := lastID\<rparr>))"

text \<open>
  \<open>Database.saveContact\<close> of the database module, and the same statement in the second
  server file of the repository: \<open>INSERT OR IGNORE\<close>. When a row already
  holds the new \<open>phone\<close> or the new \<open>normalized_phone\<close> the statement inserts nothing, and
  \<open>this.lastID\<close> is still the rowid of the last insert that succeeded; the rowid that was
  drawn for the row is used up all the same, \<open>sqlite_sequence\<close> is advanced to it.
\<close>

definition Database_saveContact :: "jsstring \<Rightarrow> jsstring \<Rightarrow> jsstring option \<Rightarrow> jsstring option
    \<Rightarrow> jsstring option \<Rightarrow> timestamp \<Rightarrow> store \<Rightarrow> sqlite_error + nat \<times> store" where
  "Database_saveContact ph np nm co cx now db =
     (if \<not> available db then Inl SQLITE_CANTOPEN
      else if list_ex (\<lambda>r. phone r = ph \<or> normalized_phone r = np) (contacts db)
        then Inr (last_insert_rowid db, db\<lparr>contacts_seq := next_contact_id db\<rparr>)
      else
        let lastID = next_contact_id db;
            row = \<lparr>id' = lastID, phone = ph, normalized_phone = np, name = nm, company = co,
                    context' = cx, created_at = now, updated_at = now\<rparr>
        in Inr (lastID, db\<lparr>contacts := contacts db @ [row], contacts_seq := lastID,
                            last_insert_rowid := lastID\<rparr>))"

text \<open>\<open>findContactByPhone\<close>: \<open>db.get\<close> calls back with the first row, or \<open>undefined\<close>.\<close>

definition findContactByPhone :: "jsstring \<Rightarrow> store \<Rightarrow> sqlite_error + contact option" where
  "findContactByPhone np db =
     (if \<not> available db then Inl SQLITE_CANTOPEN
      else Inr (find (\<lambda>r. normalized_phone r = np) (contacts db)))"

text \<open>
  A string is bound to a statement as UTF-8, so SQLite has its code points (integers
  here): a surrogate pair is one of them, and a surrogate with no partner is written as
  U+FFFD. The value has as many bytes as its code points take in UTF-8.
\<close>

definition is_high_surrogate :: "jschar \<Rightarrow> bool" where
  "is_high_surrogate c = (0xD800 \<le> c \<and> c \<le> 0xDBFF)"

definition is_low_surrogate :: "jschar \<Rightarrow> bool" where
  "is_low_surrogate c = (0xDC00 \<le> c \<and> c \<le> 0xDFFF)"

definition lone_unit :: "jschar \<Rightarrow> int" where
  "lone_unit c = (if is_high_surrogate c \<or> is_low_surrogate c then 0xFFFD else uint c)"

fun code_points :: "jsstring \<Rightarrow> int list" where
  "code_points [] = []"
| "code_points [c] = [lone_unit c]"
| "code_points (c # d # cs) =
     (if is_high_surrogate c \<and> is_low_surrogate d
      then (0x10000 + (uint c - 0xD800) * 0x400 + (uint d - 0xDC00)) # code_points cs
      else lone_unit c # code_points (d # cs))"



text \<open>
  What \<open>LIKE\<close> reads of a text or of a pattern: its code points up to the first U+0000,
  where it stops, with U+FFFE and U+FFFF read as U+FFFD.
\<close>

definition like_reads :: "jsstring \<Rightarrow> int list" where
  "like_reads s =
     map (\<lambda>c. if c = 0xFFFE \<or> c = 0xFFFF then 0xFFFD else c)
       (takeWhile (\<lambda>c. c \<noteq> 0) (code_points s))"

text \<open>
  The operator \<open>LIKE\<close> of SQLite, with no \<open>ESCAPE\<close>, on what it reads: in the pattern \<open>%\<close>
  stands for any run of code points and \<open>_\<close> for any one code point; any other code point
  matches itself, where the letters A to Z of ASCII (and no other letter) match in both
  cases. \<open>NULL LIKE pattern\<close> is \<open>NULL\<close>, which selects no row.
\<close>

definition ascii_lower :: "int \<Rightarrow> int" where
  "ascii_lower c = (if 0x41 \<le> c \<and> c \<le> 0x5A then c + 0x20 else c)"

fun like :: "int list \<Rightarrow> int list \<Rightarrow> bool" where
  "like [] s = (s = [])"
| "like (p # ps) [] = (p = 0x25 \<and> like ps [])"
| "like (p # ps) (c # cs) =
     (if p = 0x25 then like ps (c # cs) \<or> like (p # ps) cs
      else (p = 0x5F \<or> ascii_lower p = ascii_lower c) \<and> like ps cs)"

definition sql_like :: "jsstring option \<Rightarrow> jsstring \<Rightarrow> bool" where
  "sql_like v pattern =
     (case v of None \<Rightarrow> False | Some s \<Rightarrow> like (like_reads pattern) (like_reads s))"




text \<open>
  \<open>updateContact\<close>: one \<open>column = ?\<close> per entry of \<open>updates\<close>, in the order of the entries,
  then \<open>updated_at = CURRENT_TIMESTAMP\<close>, on the rows whose id is \<open>i\<close>; it resolves with
  \<open>this.changes\<close>, the number of rows the statement updated. The only caller builds
  \<open>updates\<close> from the keys \<open>name\<close>, \<open>company\<close> and \<open>context\<close>, which are the columns here.
  The route parameter is text that SQLite compares as a number; a parameter that is no
  number equals no rowid, as an integer that no row holds.
\<close>

datatype column = Name | Company | Context

fun set_column :: "column \<times> jsstring option \<Rightarrow> contact \<Rightarrow> contact" where
  "set_column (Name, v) r = r\<lparr>name := v\<rparr>"
| "set_column (Company, v) r = r\<lparr>company := v\<rparr>"
| "set_column (Context, v) r = r\<lparr>context' := v\<rparr>"

definition updateContact :: "nat \<Rightarrow> (column \<times> jsstring option) list \<Rightarrow> timestamp \<Rightarrow> store
    \<Rightarrow> sqlite_error + nat \<times> store" where
  "updateContact i updates now db =
     (if \<not> available db then Inl SQLITE_CANTOPEN
      else
        let assign = (\<lambda>r. (fold set_column updates r)\<lparr>updated_at := now\<rparr>);
            changes = length (filter (\<lambda>r. id' r = i) (contacts db))
        in Inr (changes,
                db\<lparr>contacts := map (\<lambda>r. if id' r = i then assign r else r) (contacts db)\<rparr>))"

text \<open>\<open>Database.logParsedMessage\<close> of the database module: a plain \<open>INSERT\<close>.\<close>

definition logParsedMessage :: "int \<Rightarrow> int \<Rightarrow> nat option \<Rightarrow> jsstring option \<Rightarrow> timestamp \<Rightarrow> store
    \<Rightarrow> sqlite_error + nat \<times> store" where
  "logParsedMessage messageId chatId contactId originalText now db =
     (if \<not> available db then Inl SQLITE_CANTOPEN
      else
        let lastID = next_parsed_message_id db;
            row = \<lparr>pm_id = lastID, message_id = messageId, chat_id = chatId,
                    contact_id = contactId, original_text = originalText, pm_created_at = now\<rparr>
        in Inr (lastID, db\<lparr>parsed_messages := parsed_messages db @ [row],
                            parsed_messages_seq := lastID, last_insert_rowid := lastID\<rparr>))"

section \<open>The message handler\<close>

text \<open>
  One block of the reply: the normalized phone, then the name and the company of the
  contact when they are set (a JavaScript value is taken when it is neither \<open>null\<close> nor
  the empty string).
\<close>

record reply_block =
  shown_phone :: jsstring
  shown_name :: "jsstring option"
  shown_company :: "jsstring option"

datatype reply = NoReply | Reply "reply_block list" | ErrorReply

definition truthy :: "jsstring option \<Rightarrow> bool" where
  "truthy v = (v \<noteq> None \<and> v \<noteq> Some [])"

definition response_for :: "parsed_phone \<Rightarrow> contact option \<Rightarrow> reply_block" where
  "response_for ph found =
     \<lparr>shown_phone = normalized ph,
      shown_name = (case found of Some c \<Rightarrow> if truthy (name c) then name c else None | None \<Rightarrow> None),
      shown_company =
        (case found of Some c \<Rightarrow> if truthy (company c) then company c else None | None \<Rightarrow> None)\<rparr>"

text \<open>
  The lookup of one phone: the stored contact, or else a new contact whose context is the
  first 200 code units of the message, fetched again after the insert.
\<close>

definition resolve_contact :: "jsstring \<Rightarrow> timestamp \<Rightarrow> parsed_phone \<Rightarrow> store
    \<Rightarrow> (sqlite_error + contact option) \<times> store" where
  "resolve_contact text now ph db =
     (case findContactByPhone (normalized ph) db of
        Inl e \<Rightarrow> (Inl e, db)
      | Inr (Some c) \<Rightarrow> (Inr (Some c), db)
      | Inr None \<Rightarrow>
          (case saveContact (original ph) (normalized ph) None None
                  (Some (substring2 text 0 200)) now db of
             Inl e \<Rightarrow> (Inl e, db)
           | Inr (contactId, db') \<Rightarrow> (findContactByPhone (normalized ph) db', db')))"

text \<open>The loop \<open>for (const phone of phones)\<close>; a rejected promise leaves the loop.\<close>

fun message_loop :: "jsstring \<Rightarrow> timestamp \<Rightarrow> parsed_phone list \<Rightarrow> reply_block list \<Rightarrow> store
    \<Rightarrow> (sqlite_error + reply_block list) \<times> store" where
  "message_loop text now [] responses db = (Inr responses, db)"
| "message_loop text now (ph # phs) responses db =
     (case resolve_contact text now ph db of
        (Inl e, db') \<Rightarrow> (Inl e, db')
      | (Inr found, db') \<Rightarrow>
          message_loop text now phs (responses @ [response_for ph found]) db')"

text \<open>
  \<open>bot.on('message')\<close> of server.js: nothing for a blank text or a text with no phone;
  else one reply of all blocks, or the error reply of the \<open>catch\<close> branch.
\<close>

definition on_message :: "jsstring \<Rightarrow> timestamp \<Rightarrow> store \<Rightarrow> reply \<times> store" where
  "on_message text now db =
     (if trim text = [] then (NoReply, db)
      else
        let phones = parsePhoneNumbers text in
        if length phones = 0 then (NoReply, db)
        else
          (case message_loop text now phones [] db of
             (Inl e, db') \<Rightarrow> (ErrorReply, db')
           | (Inr responses, db') \<Rightarrow>
               (if length responses > 0 then Reply responses else NoReply, db')))"

section \<open>The HTTP handlers\<close>

text \<open>
  The body of \<open>PUT /api/contacts/:id\<close>: each of the three fields is absent (\<open>undefined\<close>,
  here \<open>None\<close>) or present with a string or \<open>null\<close>.
\<close>

record put_body =
  body_name :: "jsstring option option"
  body_company :: "jsstring option option"
  body_context :: "jsstring option option"

record response =
  status :: nat
  success :: bool
  message :: "jsstring option"
  error :: "jsstring option"

definition updates_of :: "put_body \<Rightarrow> (column \<times> jsstring option) list" where
  "updates_of body =
     (case body_name body of Some v \<Rightarrow> [(Name, v)] | None \<Rightarrow> [])
     @ (case body_company body of Some v \<Rightarrow> [(Company, v)] | None \<Rightarrow> [])
     @ (case body_context body of Some v \<Rightarrow> [(Context, v)] | None \<Rightarrow> [])"

text \<open>\<open>app.put('/api/contacts/:id')\<close> of server.js.\<close>

definition put_contact :: "nat \<Rightarrow> put_body \<Rightarrow> timestamp \<Rightarrow> store \<Rightarrow> response \<times> store" where
  "put_contact i body now db =
     (case updateContact i (updates_of body) now db of
        Inl e \<Rightarrow>
          (\<lparr>status = 500, success = False, message = None, error = Some (js ''Server error'')\<rparr>, db)
      | Inr (changes, db') \<Rightarrow>
          if changes > 0
          then (\<lparr>status = 200, success = True,
                 message = Some (js ''Contact updated successfully''), error = None\<rparr>, db')
          else (\<lparr>status = 404, success = False, message = None,
                 error = Some (js ''Contact not found or no changes made'')\<rparr>, db'))"

text \<open>
  \<open>app.put('/api/contacts/:id')\<close> of the second server file of the repository: the count
  that \<open>updateContact\<close> resolves with is not read.
\<close>

definition put_contact_legacy :: "nat \<Rightarrow> put_body \<Rightarrow> timestamp \<Rightarrow> store \<Rightarrow> response \<times> store" where
  "put_contact_legacy i body now db =
     (case updateContact i (updates_of body) now db of
        Inl e \<Rightarrow>
          (\<lparr>status = 500, success = False, message = None, error = Some (js ''Server error'')\<rparr>, db)
      | Inr (changes, db') \<Rightarrow>
          (\<lparr>status = 200, success = True, message = None, error = None\<rparr>, db'))"

section \<open>Notions of the specification\<close>

text \<open>
  The words a pattern denotes, with no order of preference among them: the matcher is
  compared against this.
\<close>

definition lang_rep :: "nat \<Rightarrow> nat option \<Rightarrow> (jschar \<Rightarrow> bool) \<Rightarrow> jsstring set" where
  "lang_rep m mx p =
     {w. list_all p w \<and> m \<le> length w \<and> (case mx of None \<Rightarrow> True | Some n \<Rightarrow> length w \<le> n)}"

fun lang :: "regex \<Rightarrow> jsstring set" where
  "lang (Cls p) = {[c] | c. p c}"
| "lang (Seq a b) = {u @ v | u v. u \<in> lang a \<and> v \<in> lang b}"
| "lang (Alt a b) = lang a \<union> lang b"
| "lang (Opt a) = insert [] (lang a)"
| "lang (Rep m mx p) = lang_rep m mx p"

text \<open>Some match of the pattern begins at the head of \<open>s\<close>.\<close>

definition matches_at :: "regex \<Rightarrow> jsstring \<Rightarrow> bool" where
  "matches_at r s = (\<exists>w rest. s = w @ rest \<and> w \<in> lang r)"

text \<open>
  \<open>scan r s ms\<close>: the words \<open>ms\<close> are matches of \<open>r\<close> that lie in \<open>s\<close> one after the other
  without overlap, and no match of \<open>r\<close> begins at a position that lies before, between or
  after them.
\<close>

inductive scan :: "regex \<Rightarrow> jsstring \<Rightarrow> jsstring list \<Rightarrow> bool" where
  scan_end: "(\<And>k. k \<le> length s \<Longrightarrow> \<not> matches_at r (drop k s)) \<Longrightarrow> scan r s []"
| scan_match: "(\<And>k. k < length gap \<Longrightarrow> \<not> matches_at r (drop k (gap @ m @ rest)))
     \<Longrightarrow> m \<in> lang r \<Longrightarrow> m \<noteq> [] \<Longrightarrow> scan r rest ms \<Longrightarrow> scan r (gap @ m @ rest) (m # ms)"

text \<open>The characters that \<open>normalizePhone\<close> keeps.\<close>

definition digit_or_plus :: "jschar \<Rightarrow> bool" where
  "digit_or_plus c = (is_digit c \<or> c = 0x2B)"

text \<open>
  Step 1 of the specified procedure, "strip every character except digits and a leading
  +", in its two readings: the plus sign is kept when it is the first character of the
  input, or when it is the first of the characters that are kept.
\<close>

definition strip_keep_leading_plus :: "jsstring \<Rightarrow> jsstring" where
  "strip_keep_leading_plus raw =
     (case raw of [] \<Rightarrow> [] | c # cs \<Rightarrow> (if digit_or_plus c then [c] else []) @ filter is_digit cs)"

definition strip_keep_first_plus :: "jsstring \<Rightarrow> jsstring" where
  "strip_keep_first_plus raw =
     (case filter digit_or_plus raw of [] \<Rightarrow> [] | c # cs \<Rightarrow> c # filter is_digit cs)"

text \<open>Step 1 as the program has it: every plus sign is kept, wherever it stands.\<close>

definition strip_keep_every_plus :: "jsstring \<Rightarrow> jsstring" where
  "strip_keep_every_plus raw = filter digit_or_plus raw"

text \<open>Steps 2 to 6 of the specified procedure, after a given step 1.\<close>

definition spec_normalize :: "(jsstring \<Rightarrow> jsstring) \<Rightarrow> jsstring \<Rightarrow> jsstring" where
  "spec_normalize strip raw =
     (let s = strip raw in
      if prefix (js ''8'') s then js ''+7'' @ tl s
      else if prefix (js ''7'') s \<and> \<not> prefix (js ''+7'') s then js ''+'' @ s
      else if length s = 10 \<and> list_all is_digit s \<and> prefix (js ''9'') s then js ''+7'' @ s
      else if length s = 10 \<and> list_all is_digit s then js ''+7'' @ s
      else s)"

text \<open>
  A match without its optional plus sign, and the characters of it that lie strictly
  between its first and its last character.
\<close>

definition run_of :: "jsstring \<Rightarrow> jsstring" where
  "run_of m = (if startsWith m (js ''+'') then substring m 1 else m)"

definition interior :: "jsstring \<Rightarrow> jsstring" where
  "interior m = butlast (tl (run_of m))"

text \<open>
  The shape of a match: an optional plus sign, then a run that begins and ends with a
  digit and has at least \<open>n\<close> characters of the class of the pattern in between.
\<close>

definition phone_shaped :: "nat \<Rightarrow> jsstring \<Rightarrow> bool" where
  "phone_shaped n m =
     ((m = run_of m \<or> m = 0x2B # run_of m)
      \<and> run_of m = hd (run_of m) # interior m @ [last (run_of m)]
      \<and> is_digit (hd (run_of m)) \<and> is_digit (last (run_of m))
      \<and> list_all phone_body (interior m)
      \<and> n \<le> length (interior m))"








text \<open>
  A store for examples: one contact, named \<open>Ivan\<close> in Cyrillic letters (U+0418 U+0432
  U+0430 U+043D), and a second one with no name.
\<close>

definition ivan :: contact where
  "ivan = \<lparr>id' = 1, phone = js ''8 999 123-45-67'', normalized_phone = js ''+79991234567'',
     name = Some [0x418, 0x432, 0x430, 0x43D], company = Some (js ''Acme''),
     context' = None, created_at = 10, updated_at = 10\<rparr>"

definition anonymous :: contact where
  "anonymous = \<lparr>id' = 2, phone = js ''+7 (912) 000-00-00'', normalized_phone = js ''+79120000000'',
     name = None, company = None, context' = Some (js ''call +7 (912) 000-00-00''),
     created_at = 20, updated_at = 20\<rparr>"

definition two_contacts :: store where
  "two_contacts = \<lparr>contacts = [ivan, anonymous], contacts_seq = 2, parsed_messages = [],
     parsed_messages_seq = 0, last_insert_rowid = 2, available = True\<rparr>"

text \<open>
  What an update of the name has to leave alone in a row, and what no update through the
  HTTP handler may touch.
\<close>

definition same_but_name_and_updated_at :: "contact \<Rightarrow> contact \<Rightarrow> bool" where
  "same_but_name_and_updated_at r r' =
     (id' r' = id' r \<and> phone r' = phone r \<and> normalized_phone r' = normalized_phone r
      \<and> company r' = company r \<and> context' r' = context' r \<and> created_at r' = created_at r)"

definition same_keys :: "contact \<Rightarrow> contact \<Rightarrow> bool" where
  "same_keys r r' =
     (id' r' = id' r \<and> phone r' = phone r \<and> normalized_phone r' = normalized_phone r
      \<and> created_at r' = created_at r)"

text \<open>
  Every stored key is the normal form of the stored original: so the callers of
  \<open>saveContact\<close> make it, and no update touches either column.
\<close>

definition keys_normal :: "store \<Rightarrow> bool" where
  "keys_normal db = list_all (\<lambda>r. normalized_phone r = normalizePhone (phone r)) (contacts db)"

text \<open>Every stored key is made of digits and plus signs only.\<close>

definition keys_clean :: "store \<Rightarrow> bool" where
  "keys_clean db = list_all (\<lambda>r. list_all digit_or_plus (normalized_phone r)) (contacts db)"

section \<open>Strings and patterns\<close>

lemma js_literals:
  "js ''8'' = [0x38]" "js ''7'' = [0x37]" "js ''+7'' = [0x2B, 0x37]" "js ''+'' = [0x2B]"
  "js ''9'' = [0x39]" "js ''%'' = [0x25]"
  by (simp_all add: js_def)

lemma startsWith_single: "startsWith s [c] \<longleftrightarrow> s \<noteq> [] \<and> hd s = c"
  by (cases s) (auto simp: startsWith_def)

lemma replace_all_Cls: "replace_all (Cls p) [] s = filter (\<lambda>c. \<not> p c) s"
proof (induction s)
  case Nil
  show ?case by (subst replace_all.simps) simp
next
  case (Cons c cs)
  show ?case by (subst replace_all.simps) (simp add: Cons)
qed

lemma rep_exact:
  "rep n (Some n) p s k = (if n \<le> length s \<and> list_all p (take n s) then k (drop n s) else None)"
proof (induction s arbitrary: n)
  case Nil
  show ?case by simp
next
  case (Cons c cs)
  show ?case
  proof (cases n)
    case 0
    then show ?thesis by simp
  next
    case (Suc m)
    then show ?thesis using Cons [of m] by (simp split: option.splits)
  qed
qed

lemma test_ten_digits:
  "test_anchored ten_digits s \<longleftrightarrow> length s = 10 \<and> list_all is_digit s"
  by (auto simp: test_anchored_def ten_digits_def rep_exact)

lemma test_nine_and_nine_digits:
  "test_anchored nine_and_nine_digits s \<longleftrightarrow> length s = 10 \<and> list_all is_digit s \<and> hd s = 0x39"
  by (cases s) (auto simp: test_anchored_def nine_and_nine_digits_def rep_exact is_digit_def)

subsection \<open>The matcher and the words of a pattern\<close>

text \<open>Whatever the matcher accepts is a word of the pattern followed by the unread input.\<close>

lemma rep_sound:
  "rep m mx p s k = Some x \<Longrightarrow> \<exists>w s'. s = w @ s' \<and> w \<in> lang_rep m mx p \<and> k s' = Some x"
proof (induction s arbitrary: m mx)
  case Nil
  then show ?case by (auto simp: lang_rep_def split: if_splits option.splits)
next
  case (Cons c cs)
  show ?case
  proof (cases "p c \<and> mx \<noteq> Some 0")
    case False
    with Cons.prems have "m = 0" "k (c # cs) = Some x" by (auto split: if_splits)
    then have "c # cs = [] @ (c # cs) \<and> [] \<in> lang_rep m mx p \<and> k (c # cs) = Some x"
      by (auto simp: lang_rep_def split: option.splits)
    then show ?thesis by blast
  next
    case True
    show ?thesis
    proof (cases "rep (m - 1) (map_option (\<lambda>n. n - 1) mx) p cs k")
      case None
      with True Cons.prems have "m = 0" "k (c # cs) = Some x" by (auto split: if_splits)
      then have "c # cs = [] @ (c # cs) \<and> [] \<in> lang_rep m mx p \<and> k (c # cs) = Some x"
        by (auto simp: lang_rep_def split: option.splits)
      then show ?thesis by blast
    next
      case (Some r)
      with True Cons.prems have rx: "r = x" by simp
      from Cons.IH [OF Some [unfolded rx]] obtain w s' where
        w: "cs = w @ s'" "w \<in> lang_rep (m - 1) (map_option (\<lambda>n. n - 1) mx) p" "k s' = Some x"
        by blast
      from w(2) True have "c # w \<in> lang_rep m mx p"
        by (cases mx) (auto simp: lang_rep_def)
      with w(1,3) have "c # cs = (c # w) @ s' \<and> c # w \<in> lang_rep m mx p \<and> k s' = Some x"
        by simp
      then show ?thesis by blast
    qed
  qed
qed

lemma bt_sound:
  "bt r s k = Some x \<Longrightarrow> \<exists>w s'. s = w @ s' \<and> w \<in> lang r \<and> k s' = Some x"
proof (induction r arbitrary: s k)
  case (Cls p)
  then obtain c cs where c: "s = c # cs" "p c" "k cs = Some x"
    by (cases s) (auto split: if_splits)
  then have "s = [c] @ cs \<and> [c] \<in> lang (Cls p) \<and> k cs = Some x" by simp
  then show ?case by blast
next
  case (Seq a b)
  from Seq.prems have "bt a s (\<lambda>s'. bt b s' k) = Some x" by simp
  from Seq.IH(1) [OF this] obtain u s1 where
    u: "s = u @ s1" "u \<in> lang a" "bt b s1 k = Some x" by blast
  from Seq.IH(2) [OF u(3)] obtain v s2 where
    v: "s1 = v @ s2" "v \<in> lang b" "k s2 = Some x" by blast
  from u v have "s = (u @ v) @ s2 \<and> u @ v \<in> lang (Seq a b) \<and> k s2 = Some x" by auto
  then show ?case by blast
next
  case (Alt a b)
  show ?case
  proof (cases "bt a s k")
    case None
    with Alt.prems have "bt b s k = Some x" by simp
    from Alt.IH(2) [OF this] show ?thesis by auto
  next
    case (Some r)
    with Alt.prems have "bt a s k = Some x" by simp
    from Alt.IH(1) [OF this] show ?thesis by auto
  qed
next
  case (Opt a)
  show ?case
  proof (cases "bt a s k")
    case None
    with Opt.prems have "k s = Some x" by simp
    then have "s = [] @ s \<and> [] \<in> lang (Opt a) \<and> k s = Some x" by simp
    then show ?thesis by blast
  next
    case (Some r)
    with Opt.prems have "bt a s k = Some x" by simp
    from Opt.IH [OF this] show ?thesis by auto
  qed
next
  case (Rep m mx p)
  then show ?case using rep_sound [of m mx p s k x] by simp
qed

text \<open>Whenever a word of the pattern stands before input that \<open>k\<close> accepts, the matcher succeeds.\<close>

lemma rep_complete:
  "w \<in> lang_rep m mx p \<Longrightarrow> k s' \<noteq> None \<Longrightarrow> rep m mx p (w @ s') k \<noteq> None"
proof (induction w arbitrary: m mx)
  case Nil
  then have "m = 0" by (simp add: lang_rep_def)
  with Nil show ?case by (cases s') (auto split: option.splits)
next
  case (Cons c w)
  from Cons.prems(1) have pc: "p c" "mx \<noteq> Some 0" by (auto simp: lang_rep_def)
  from Cons.prems(1) have "w \<in> lang_rep (m - 1) (map_option (\<lambda>n. n - 1) mx) p"
    by (cases mx) (auto simp: lang_rep_def)
  from Cons.IH [OF this Cons.prems(2)] obtain y where
    "rep (m - 1) (map_option (\<lambda>n. n - 1) mx) p (w @ s') k = Some y" by blast
  with pc have "rep m mx p ((c # w) @ s') k = Some y" by simp
  then show ?case by simp
qed

lemma bt_complete:
  "w \<in> lang r \<Longrightarrow> k s' \<noteq> None \<Longrightarrow> bt r (w @ s') k \<noteq> None"
proof (induction r arbitrary: w s' k)
  case (Cls p)
  then show ?case by auto
next
  case (Seq a b)
  from Seq.prems(1) obtain u v where uv: "w = u @ v" "u \<in> lang a" "v \<in> lang b" by auto
  have "bt b (v @ s') k \<noteq> None"
    by (rule Seq.IH(2) [where w = v and k = k and s' = s', OF uv(3) Seq.prems(2)])
  then have "bt a (u @ (v @ s')) (\<lambda>t. bt b t k) \<noteq> None"
    by (rule Seq.IH(1) [where w = u and k = "\<lambda>t. bt b t k" and s' = "v @ s'", OF uv(2)])
  with uv(1) show ?case by simp
next
  case (Alt a b)
  show ?case
  proof (cases "bt a (w @ s') k")
    case (Some y)
    then show ?thesis by simp
  next
    case None
    with Alt.IH(1) [where w = w and k = k and s' = s'] Alt.prems(2) have "w \<notin> lang a" by blast
    with Alt.prems(1) have "w \<in> lang b" by simp
    from Alt.IH(2) [where w = w and k = k and s' = s', OF this Alt.prems(2)] None
    show ?thesis by simp
  qed
next
  case (Opt a)
  show ?case
  proof (cases "bt a (w @ s') k")
    case (Some y)
    then show ?thesis by simp
  next
    case None
    with Opt.IH [where w = w and k = k and s' = s'] Opt.prems(2) have "w \<notin> lang a" by blast
    with Opt.prems(1) have "w = []" by simp
    with None Opt.prems(2) show ?thesis by simp
  qed
next
  case (Rep m mx p)
  then show ?case using rep_complete [of w m mx p k s'] by simp
qed

text \<open>The matcher fails at a position exactly when no word of the pattern begins there.\<close>

lemma bt_None_iff: "bt r s Some = None \<longleftrightarrow> \<not> matches_at r s"
proof
  assume n: "bt r s Some = None"
  show "\<not> matches_at r s"
  proof
    assume "matches_at r s"
    then obtain w rest where "s = w @ rest" "w \<in> lang r" by (auto simp: matches_at_def)
    with bt_complete [of w r Some rest] n show False by simp
  qed
next
  assume n: "\<not> matches_at r s"
  show "bt r s Some = None"
  proof (cases "bt r s Some")
    case None then show ?thesis .
  next
    case (Some x)
    from bt_sound [OF this] n show ?thesis by (auto simp: matches_at_def)
  qed
qed

lemma bt_Some_split:
  assumes "bt r s Some = Some rest"
  shows "\<exists>w. s = w @ rest \<and> w \<in> lang r"
  using bt_sound [OF assms] by auto

lemma scan_skip:
  assumes "\<not> matches_at r (c # cs)" and "scan r cs ms"
  shows "scan r (c # cs) ms"
  using assms(2)
proof cases
  case scan_end
  have "\<And>k. k \<le> length (c # cs) \<Longrightarrow> \<not> matches_at r (drop k (c # cs))"
  proof -
    fix k assume "k \<le> length (c # cs)"
    then show "\<not> matches_at r (drop k (c # cs))"
      using assms(1) scan_end(2) by (cases k) auto
  qed
  then show ?thesis unfolding scan_end(1) by (rule scan.scan_end)
next
  case (scan_match gap m rest ms')
  have g: "\<And>k. k < length (c # gap) \<Longrightarrow> \<not> matches_at r (drop k ((c # gap) @ m @ rest))"
  proof -
    fix k assume "k < length (c # gap)"
    then show "\<not> matches_at r (drop k ((c # gap) @ m @ rest))"
      using assms(1) scan_match(1,3) by (cases k) auto
  qed
  have "scan r ((c # gap) @ m @ rest) (m # ms')"
    using g scan_match(4,5,6) by (rule scan.scan_match)
  then show ?thesis using scan_match(1,2) by simp
qed

lemma scan_match_all:
  assumes "[] \<notin> lang r"
  shows "scan r s (match_all r s)"
  using assms
proof (induction r s rule: match_all.induct)
  case (1 r s)
  show ?case
  proof (cases "bt r s Some")
    case None
    then have nm: "\<not> matches_at r s" by (simp add: bt_None_iff)
    show ?thesis
    proof (cases s)
      case Nil
      have "scan r [] []"
        by (rule scan.scan_end) (use nm Nil in simp)
      with None Nil show ?thesis by (subst match_all.simps) simp
    next
      case (Cons c cs)
      have "scan r cs (match_all r cs)" using "1.IH" "1.prems" None Cons by auto
      with nm Cons have "scan r (c # cs) (match_all r cs)" by (auto intro: scan_skip)
      with None Cons show ?thesis by (subst match_all.simps) simp
    qed
  next
    case (Some rest)
    from bt_Some_split [OF Some] obtain w where w: "s = w @ rest" "w \<in> lang r" by blast
    with "1.prems" have ne: "w \<noteq> []" by auto
    with w(1) have lt: "length rest < length s" by simp
    from w(1) have tk: "take (length s - length rest) s = w" by simp
    have "scan r rest (match_all r rest)" using "1.IH" "1.prems" Some lt by auto
    then have "scan r ([] @ w @ rest) (w # match_all r rest)"
      using w(2) ne by (intro scan.scan_match) simp_all
    with w(1) have "scan r s (w # match_all r rest)" by simp
    moreover have "match_all r s = w # match_all r rest"
      by (subst match_all.simps) (simp add: Some lt tk)
    ultimately show ?thesis by simp
  qed
qed

lemma scan_members: "scan r s ms \<Longrightarrow> m \<in> set ms \<Longrightarrow> m \<in> lang r \<and> m \<noteq> []"
  by (induction rule: scan.induct) auto


subsection \<open>The words of the phone pattern\<close>

lemma lang_Cls_Seq:
  "w \<in> lang (Seq (Cls p) b) \<longleftrightarrow> (\<exists>c v. w = c # v \<and> p c \<and> v \<in> lang b)"
  (is "?L \<longleftrightarrow> ?R")
proof
  assume ?L
  then obtain u v where uv: "w = u @ v" "u \<in> lang (Cls p)" "v \<in> lang b"
    unfolding lang.simps(2) by blast
  from uv(2) obtain c where "u = [c]" "p c" unfolding lang.simps(1) by blast
  with uv(1,3) have "w = c # v \<and> p c \<and> v \<in> lang b" by simp
  then show ?R by blast
next
  assume ?R
  then obtain c v where "w = c # v" "p c" "v \<in> lang b" by blast
  then have "w = [c] @ v \<and> [c] \<in> lang (Cls p) \<and> v \<in> lang b" by simp
  then show ?L unfolding lang.simps(2) by blast
qed

lemma lang_Rep_Cls:
  "v \<in> lang (Seq (Rep m None p) (Cls q)) \<longleftrightarrow>
     (\<exists>mid d. v = mid @ [d] \<and> list_all p mid \<and> m \<le> length mid \<and> q d)"
  (is "?L \<longleftrightarrow> ?R")
proof
  assume ?L
  then obtain u e where ue: "v = u @ e" "u \<in> lang (Rep m None p)" "e \<in> lang (Cls q)"
    unfolding lang.simps(2) by blast
  from ue(3) obtain d where "e = [d]" "q d" unfolding lang.simps(1) by blast
  with ue(1,2) have "v = u @ [d] \<and> list_all p u \<and> m \<le> length u \<and> q d"
    by (simp add: lang_rep_def)
  then show ?R by blast
next
  assume ?R
  then obtain mid d where "v = mid @ [d]" "list_all p mid" "m \<le> length mid" "q d" by blast
  then have "v = mid @ [d] \<and> mid \<in> lang (Rep m None p) \<and> [d] \<in> lang (Cls q)"
    by (simp add: lang_rep_def)
  then show ?L unfolding lang.simps(2) by blast
qed

lemma lang_Opt_Seq:
  "w \<in> lang (Seq (Opt (Cls p)) b) \<longleftrightarrow> (w \<in> lang b \<or> (\<exists>c v. w = c # v \<and> p c \<and> v \<in> lang b))"
  (is "?L \<longleftrightarrow> ?R")
proof
  assume ?L
  then obtain u v where uv: "w = u @ v" "u \<in> lang (Opt (Cls p))" "v \<in> lang b"
    unfolding lang.simps(2) by blast
  from uv(2) have "u = [] \<or> (\<exists>c. u = [c] \<and> p c)" by auto
  with uv(1,3) show ?R by auto
next
  assume r: ?R
  show ?L
  proof (cases "w \<in> lang b")
    case True
    then have "w = [] @ w \<and> [] \<in> lang (Opt (Cls p)) \<and> w \<in> lang b" by simp
    then show ?thesis unfolding lang.simps(2) by blast
  next
    case False
    with r obtain c v where "w = c # v" "p c" "v \<in> lang b" by blast
    then have "w = [c] @ v \<and> [c] \<in> lang (Opt (Cls p)) \<and> v \<in> lang b" by simp
    then show ?thesis unfolding lang.simps(2) by blast
  qed
qed

lemma phone_lang:
  "w \<in> lang phoneRegex \<longleftrightarrow>
     (\<exists>d1 mid d2. (w = d1 # mid @ [d2] \<or> w = 0x2B # d1 # mid @ [d2]) \<and> is_digit d1
        \<and> is_digit d2 \<and> list_all phone_body mid \<and> 7 \<le> length mid)"
  unfolding phoneRegex_def lang.simps(3) Un_iff lang_Opt_Seq lang_Cls_Seq lang_Rep_Cls
  by blast

section \<open>normalizePhone\<close>

lemma normalizePhone_unfold:
  "normalizePhone raw =
     (let s = filter digit_or_plus raw in
      if s \<noteq> [] \<and> hd s = 0x38 then [0x2B, 0x37] @ tl s
      else if s \<noteq> [] \<and> hd s = 0x37 then 0x2B # s
      else if length s = 10 \<and> list_all is_digit s then [0x2B, 0x37] @ s
      else s)"
proof -
  have f: "replace_all (Cls not_digit_plus) [] raw = filter digit_or_plus raw"
    by (simp add: replace_all_Cls not_digit_plus_def digit_or_plus_def [abs_def])
  have two: "\<And>s c d. startsWith s [c, d] \<Longrightarrow> s \<noteq> [] \<and> hd s = c"
    by (case_tac s) (auto simp: startsWith_def)
  show ?thesis
    unfolding normalizePhone_def f Let_def js_literals startsWith_single test_ten_digits
      test_nine_and_nine_digits substring_def
    by (auto dest: two simp: drop_Suc)
qed

lemma plus_not_digit: "\<not> is_digit 0x2B" "digit_or_plus 0x2B" "digit_or_plus 0x37"
  by (simp_all add: is_digit_def digit_or_plus_def)

lemma normalizePhone_chars: "list_all digit_or_plus (normalizePhone raw)"
proof -
  have s: "list_all digit_or_plus (filter digit_or_plus raw)"
    by (simp add: list_all_iff)
  then have "list_all digit_or_plus (tl (filter digit_or_plus raw))"
    by (cases "filter digit_or_plus raw") simp_all
  with s show ?thesis
    by (simp add: normalizePhone_unfold Let_def plus_not_digit)
qed

lemma filter_id_of_all: "list_all P xs \<Longrightarrow> filter P xs = xs"
  by (induction xs) simp_all

text \<open>A string of kept characters that begins with a plus sign is left as it is.\<close>

lemma normalizePhone_of_plus:
  assumes "list_all digit_or_plus r" and "r \<noteq> []" and "hd r = 0x2B"
  shows "normalizePhone r = r"
proof -
  have f: "filter digit_or_plus r = r" using assms(1) by (rule filter_id_of_all)
  have nd: "\<not> list_all is_digit r" using assms(2,3) by (cases r) (auto simp: plus_not_digit)
  show ?thesis
    unfolding normalizePhone_unfold f Let_def using assms(2,3) nd by simp
qed

lemma normalizePhone_spec: "normalizePhone raw = spec_normalize strip_keep_every_plus raw"
proof -
  have p1: "\<And>s c. prefix [c] s \<longleftrightarrow> s \<noteq> [] \<and> hd s = c"
    by (case_tac s) auto
  have p2: "\<And>s c d. prefix [c, d] s \<Longrightarrow> s \<noteq> [] \<and> hd s = c"
    by (case_tac s) auto
  show ?thesis
    unfolding normalizePhone_unfold spec_normalize_def strip_keep_every_plus_def Let_def
      js_literals p1
    by (auto dest: p2)
qed

text \<open>
  Claim C4, as stated, fails: the class \<open>[^\d+]\<close> keeps every plus sign, not only a
  leading one. On \<open>1+2\<close> the program returns \<open>1+2\<close>, and the specified procedure, in
  either reading of "a leading +", returns \<open>12\<close>.
\<close>

theorem normalizePhone_leading_plus_counterexample:
  "normalizePhone (js ''1+2'') = js ''1+2''
   \<and> spec_normalize strip_keep_leading_plus (js ''1+2'') = js ''12''
   \<and> spec_normalize strip_keep_first_plus (js ''1+2'') = js ''12''
   \<and> js ''1+2'' \<noteq> js ''12''"
  by code_simp

text \<open>
  Claim C4, amended: for every input \<open>raw\<close>, \<open>normalizePhone raw\<close> is the result of the
  specified procedure when step 1 strips every character except digits and plus signs
  (every plus sign, wherever it stands): a leading 8 becomes +7; a leading 7 gets a plus
  sign in front; exactly ten digits, with a leading 9 or not, get +7 in front; anything else
  is returned as stripped. The empty input gives the empty string, and the four spellings
  of the specification all give +79991234567.
\<close>

theorem normalizePhone_procedure:
  "normalizePhone raw = spec_normalize strip_keep_every_plus raw
   \<and> normalizePhone (js '''') = js ''''
   \<and> normalizePhone (js ''89991234567'') = js ''+79991234567''
   \<and> normalizePhone (js ''+79991234567'') = js ''+79991234567''
   \<and> normalizePhone (js ''79991234567'') = js ''+79991234567''
   \<and> normalizePhone (js ''9991234567'') = js ''+79991234567''"
proof -
  have e0: "normalizePhone (js '''') = js ''''" by code_simp
  have e1: "normalizePhone (js ''89991234567'') = js ''+79991234567''" by code_simp
  have e2: "normalizePhone (js ''+79991234567'') = js ''+79991234567''" by code_simp
  have e3: "normalizePhone (js ''79991234567'') = js ''+79991234567''" by code_simp
  have e4: "normalizePhone (js ''9991234567'') = js ''+79991234567''" by code_simp
  from normalizePhone_spec e0 e1 e2 e3 e4 show ?thesis by blast
qed

theorem normalizePhone_procedure_witness:
  "normalizePhone (js ''8 (999) 123-45-67'') = js ''+79991234567''
   \<and> spec_normalize strip_keep_every_plus (js ''8 (999) 123-45-67'') = js ''+79991234567''"
proof -
  have "spec_normalize strip_keep_every_plus (js ''8 (999) 123-45-67'') = js ''+79991234567''"
    by code_simp
  with normalizePhone_procedure [of "js ''8 (999) 123-45-67''"] show ?thesis by simp
qed

text \<open>
  Claim C5: \<open>normalizePhone\<close> is idempotent. A result that was given a prefix begins with a
  plus sign, and such a string is a fixed point; a result that was only stripped meets
  none of the four conditions, before and after.
\<close>

theorem normalizePhone_idempotent: "normalizePhone (normalizePhone p) = normalizePhone p"
proof -
  define s where "s = filter digit_or_plus p"
  have all: "list_all digit_or_plus s" by (simp add: s_def list_all_iff)
  have tl: "list_all digit_or_plus (tl s)" using all by (cases s) simp_all
  have fs: "filter digit_or_plus s = s" using all by (rule filter_id_of_all)
  consider (eight) "s \<noteq> []" "hd s = 0x38"
    | (seven) "s \<noteq> []" "hd s \<noteq> 0x38" "hd s = 0x37"
    | (ten) "\<not> (s \<noteq> [] \<and> hd s = 0x38)" "\<not> (s \<noteq> [] \<and> hd s = 0x37)"
        "length s = 10 \<and> list_all is_digit s"
    | (other) "\<not> (s \<noteq> [] \<and> hd s = 0x38)" "\<not> (s \<noteq> [] \<and> hd s = 0x37)"
        "\<not> (length s = 10 \<and> list_all is_digit s)"
    by blast
  then show ?thesis
  proof cases
    case eight
    then have r: "normalizePhone p = [0x2B, 0x37] @ tl s"
      by (auto simp: normalizePhone_unfold s_def [symmetric] Let_def)
    show ?thesis unfolding r using tl
      by (intro normalizePhone_of_plus) (simp_all add: plus_not_digit)
  next
    case seven
    then have r: "normalizePhone p = 0x2B # s"
      by (auto simp: normalizePhone_unfold s_def [symmetric] Let_def)
    show ?thesis unfolding r using all
      by (intro normalizePhone_of_plus) (simp_all add: plus_not_digit)
  next
    case ten
    then have r: "normalizePhone p = [0x2B, 0x37] @ s"
      by (auto simp: normalizePhone_unfold s_def [symmetric] Let_def)
    show ?thesis unfolding r using all
      by (intro normalizePhone_of_plus) (simp_all add: plus_not_digit)
  next
    case other
    then have r: "normalizePhone p = s"
      by (auto simp: normalizePhone_unfold s_def [symmetric] Let_def)
    show ?thesis unfolding r using other by (auto simp: normalizePhone_unfold fs Let_def)
  qed
qed

theorem normalizePhone_idempotent_witness:
  "normalizePhone (normalizePhone (js ''8-999-123-45-67'')) = js ''+79991234567''"
proof -
  have "normalizePhone (js ''8-999-123-45-67'') = js ''+79991234567''" by code_simp
  with normalizePhone_idempotent [of "js ''8-999-123-45-67''"] show ?thesis by simp
qed

section \<open>parsePhoneNumbers\<close>

lemma digit_not_space: "is_digit c \<Longrightarrow> \<not> is_space c"
  unfolding is_digit_def is_space_def word_le_nat_alt
  by auto

lemma plus_not_space: "\<not> is_space 0x2B"
  by (simp add: is_space_def)

lemma trim_id:
  assumes "m \<noteq> []" "\<not> is_space (hd m)" "\<not> is_space (last m)"
  shows "trim m = m"
proof -
  from assms(1,2) have a: "dropWhile is_space m = m" by (cases m) simp_all
  from assms(1,3) have "rev m \<noteq> []" "\<not> is_space (hd (rev m))" by (simp_all add: hd_rev)
  then have b: "dropWhile is_space (rev m) = rev m" by (cases "rev m") simp_all
  show ?thesis by (simp add: trim_def a b)
qed

lemma phone_lang_shaped:
  assumes "w \<in> lang phoneRegex"
  shows "phone_shaped 7 w"
proof -
  from assms obtain d1 mid d2 where
    w: "w = d1 # mid @ [d2] \<or> w = 0x2B # d1 # mid @ [d2]" and
    d: "is_digit d1" "is_digit d2" "list_all phone_body mid" "7 \<le> length mid"
    unfolding phone_lang by blast
  from d(1) have np: "d1 \<noteq> 0x2B" using plus_not_digit(1) by auto
  from w np have r: "run_of w = d1 # mid @ [d2]"
    by (auto simp: run_of_def js_literals startsWith_single substring_def)
  then have i: "interior w = mid" by (simp add: interior_def butlast_append)
  show ?thesis unfolding phone_shaped_def i r using w d by auto
qed

lemma phone_lang_nonempty: "[] \<notin> lang phoneRegex"
  by (simp add: phone_lang)

lemma phone_lang_trim:
  assumes "w \<in> lang phoneRegex"
  shows "trim w = w"
proof -
  from assms obtain d1 mid d2 where
    w: "w = d1 # mid @ [d2] \<or> w = 0x2B # d1 # mid @ [d2]" and
    d: "is_digit d1" "is_digit d2"
    unfolding phone_lang by blast
  from w d show ?thesis
    by (intro trim_id) (auto simp: digit_not_space plus_not_space)
qed

lemma parsePhoneNumbers_unfold:
  "parsePhoneNumbers text =
     map (\<lambda>m. \<lparr>original = trim m, normalized = normalizePhone m\<rparr>) (match_all phoneRegex text)"
  by (simp add: parsePhoneNumbers_def String_match_def Let_def)

lemma match_all_phone_lang: "m \<in> set (match_all phoneRegex text) \<Longrightarrow> m \<in> lang phoneRegex"
  using scan_members [OF scan_match_all [OF phone_lang_nonempty]] by blast

lemma originals: "map original (parsePhoneNumbers text) = match_all phoneRegex text"
proof -
  have "map original (parsePhoneNumbers text) = map trim (match_all phoneRegex text)"
    by (simp add: parsePhoneNumbers_unfold comp_def)
  also have "\<dots> = map (\<lambda>m. m) (match_all phoneRegex text)"
    by (rule map_cong) (simp_all add: phone_lang_trim match_all_phone_lang)
  finally show ?thesis by simp
qed

lemma scan_none: "scan r s [] \<longleftrightarrow> \<not> (\<exists>k\<le>length s. matches_at r (drop k s))"
proof
  assume "scan r s []"
  then show "\<not> (\<exists>k\<le>length s. matches_at r (drop k s))" by cases auto
next
  assume "\<not> (\<exists>k\<le>length s. matches_at r (drop k s))"
  then show "scan r s []" by (intro scan_end) auto
qed

lemma scan_some:
  assumes "scan r s (m # ms)"
  shows "\<exists>k\<le>length s. matches_at r (drop k s)"
  using assms
proof cases
  case (scan_match gap rest)
  then have "length gap \<le> length s \<and> matches_at r (drop (length gap) s)"
    by (auto simp: matches_at_def)
  then show ?thesis by blast
qed

lemma match_all_empty_iff:
  assumes "[] \<notin> lang r"
  shows "match_all r s = [] \<longleftrightarrow> \<not> (\<exists>k\<le>length s. matches_at r (drop k s))"
proof (cases "match_all r s")
  case Nil
  with scan_match_all [OF assms, of s] show ?thesis by (simp add: scan_none)
next
  case (Cons m ms)
  with scan_match_all [OF assms, of s] have "scan r s (m # ms)" by simp
  from scan_some [OF this] Cons show ?thesis by simp
qed

text \<open>
  Claim C6: \<open>parsePhoneNumbers\<close> yields one entry for each match of the phone pattern, the
  matches lying in the text from left to right without overlap and no match being passed
  over; \<open>original\<close> is the trimmed match, \<open>normalized\<close> is \<open>normalizePhone\<close> of \<open>original\<close>; the
  result is empty exactly when the pattern matches nowhere in the text; and the text
  \<open>call me at 8-999-123-45-67 please\<close> yields the one entry +79991234567.
\<close>

theorem parsePhoneNumbers_entries:
  "scan phoneRegex text (map original (parsePhoneNumbers text))
   \<and> map original (parsePhoneNumbers text) = map trim (match_all phoneRegex text)
   \<and> list_all (\<lambda>e. normalized e = normalizePhone (original e)) (parsePhoneNumbers text)
   \<and> (parsePhoneNumbers text = []
        \<longleftrightarrow> \<not> (\<exists>k\<le>length text. matches_at phoneRegex (drop k text)))
   \<and> parsePhoneNumbers (js ''call me at 8-999-123-45-67 please'') =
        [\<lparr>original = js ''8-999-123-45-67'', normalized = js ''+79991234567''\<rparr>]"
proof -
  have a: "scan phoneRegex text (map original (parsePhoneNumbers text))"
    unfolding originals by (rule scan_match_all [OF phone_lang_nonempty])
  have b: "map original (parsePhoneNumbers text) = map trim (match_all phoneRegex text)"
    by (simp add: parsePhoneNumbers_unfold comp_def)
  have c: "list_all (\<lambda>e. normalized e = normalizePhone (original e)) (parsePhoneNumbers text)"
    unfolding parsePhoneNumbers_unfold list_all_iff
    by (auto simp: phone_lang_trim match_all_phone_lang)
  have "parsePhoneNumbers text = [] \<longleftrightarrow> match_all phoneRegex text = []"
    by (simp add: parsePhoneNumbers_unfold)
  then have d: "parsePhoneNumbers text = []
      \<longleftrightarrow> \<not> (\<exists>k\<le>length text. matches_at phoneRegex (drop k text))"
    by (simp add: match_all_empty_iff [OF phone_lang_nonempty])
  have e: "parsePhoneNumbers (js ''call me at 8-999-123-45-67 please'') =
        [\<lparr>original = js ''8-999-123-45-67'', normalized = js ''+79991234567''\<rparr>]"
    by code_simp
  from a b c d e show ?thesis by blast
qed

theorem parsePhoneNumbers_entries_witness:
  "scan phoneRegex (js ''call me at 8-999-123-45-67 please'') [js ''8-999-123-45-67'']"
proof -
  let ?t = "js ''call me at 8-999-123-45-67 please''"
  from parsePhoneNumbers_entries [of ?t]
  have s: "scan phoneRegex ?t (map original (parsePhoneNumbers ?t))"
    and e: "parsePhoneNumbers ?t =
      [\<lparr>original = js ''8-999-123-45-67'', normalized = js ''+79991234567''\<rparr>]"
    by blast+
  from s show ?thesis unfolding e by simp
qed

text \<open>
  Claim C7, as stated, fails: the pattern asks for seven characters, not nine, between
  the first and the last digit, so the nine digits \<open>123456789\<close> are matched with an interior
  of seven characters; and its class has \<open>\s\<close>, so a match may run over a line feed, which
  is no space.
\<close>

theorem parsePhoneNumbers_interior_counterexample:
  "map original (parsePhoneNumbers (js ''123456789'')) = [js ''123456789'']
   \<and> length (interior (js ''123456789'')) = 7
   \<and> \<not> phone_shaped 9 (js ''123456789'')
   \<and> map original (parsePhoneNumbers (js ''12345'' @ [0x0A] @ js ''67890'')) =
        [js ''12345'' @ [0x0A] @ js ''67890'']"
proof -
  have a: "map original (parsePhoneNumbers (js ''123456789'')) = [js ''123456789'']"
    by code_simp
  have b: "length (interior (js ''123456789'')) = 7" by code_simp
  have c: "\<not> phone_shaped 9 (js ''123456789'')" by code_simp
  have d: "map original (parsePhoneNumbers (js ''12345'' @ [0x0A] @ js ''67890'')) =
        [js ''12345'' @ [0x0A] @ js ''67890'']"
    by code_simp
  from a b c d show ?thesis by blast
qed

text \<open>
  Claim C7, amended: every match that \<open>parsePhoneNumbers\<close> returns is an optional plus sign
  followed by a run that begins with a digit, ends with a digit and has in between at
  least seven characters, each a digit, a white-space character (\<open>\s\<close>), a hyphen or a
  parenthesis; so the run has at least nine characters, and no shorter run is matched.
\<close>

theorem parsePhoneNumbers_shape:
  "list_all (phone_shaped 7) (map original (parsePhoneNumbers text))
   \<and> list_all (\<lambda>m. 9 \<le> length (run_of m)) (map original (parsePhoneNumbers text))"
proof -
  have a: "list_all (phone_shaped 7) (map original (parsePhoneNumbers text))"
    unfolding originals list_all_iff
    by (auto intro: phone_lang_shaped match_all_phone_lang)
  have "\<And>m. phone_shaped 7 m \<Longrightarrow> 9 \<le> length (run_of m)"
  proof -
    fix m assume s: "phone_shaped 7 m"
    then have eq: "run_of m = hd (run_of m) # interior m @ [last (run_of m)]"
      and n: "7 \<le> length (interior m)"
      unfolding phone_shaped_def by blast+
    from arg_cong [OF eq, of length] have "length (run_of m) = Suc (Suc (length (interior m)))"
      by simp
    with n show "9 \<le> length (run_of m)" by simp
  qed
  with a have "list_all (\<lambda>m. 9 \<le> length (run_of m)) (map original (parsePhoneNumbers text))"
    unfolding list_all_iff by blast
  with a show ?thesis by blast
qed

theorem parsePhoneNumbers_shape_witness:
  "phone_shaped 7 (js ''8-999-123-45-67'') \<and> 9 \<le> length (run_of (js ''8-999-123-45-67''))"
proof -
  have "map original (parsePhoneNumbers (js ''call me at 8-999-123-45-67 please'')) =
      [js ''8-999-123-45-67'']"
    by code_simp
  with parsePhoneNumbers_shape [of "js ''call me at 8-999-123-45-67 please''"]
  show ?thesis by simp
qed

section \<open>saveContact\<close>

lemma fold_max_ge: "a \<le> fold max xs (a::nat)"
  unfolding Max.set_eq_fold [symmetric] by simp

lemma fold_max_ge_member: "x \<in> set xs \<Longrightarrow> x \<le> fold max xs (a::nat)"
  unfolding Max.set_eq_fold [symmetric] by simp

lemma next_contact_id_fresh:
  "contacts_seq db < next_contact_id db"
  "r \<in> set (contacts db) \<Longrightarrow> id' r < next_contact_id db"
proof -
  show "contacts_seq db < next_contact_id db"
    unfolding next_contact_id_def using fold_max_ge [of "contacts_seq db" "map id' (contacts db)"]
    by simp
  assume "r \<in> set (contacts db)"
  then have "id' r \<in> set (map id' (contacts db))" by simp
  from fold_max_ge_member [OF this, of "contacts_seq db"]
  show "id' r < next_contact_id db" unfolding next_contact_id_def by simp
qed

lemma Database_saveContact_ignored:
  assumes "available db" and "list_ex (\<lambda>r. phone r = ph \<or> normalized_phone r = np) (contacts db)"
  shows "Database_saveContact ph np nm co cx now db =
     Inr (last_insert_rowid db, db\<lparr>contacts_seq := next_contact_id db\<rparr>)"
  using assms by (simp add: Database_saveContact_def)

lemma Database_saveContact_inserted:
  assumes "available db" and "\<not> list_ex (\<lambda>r. phone r = ph \<or> normalized_phone r = np) (contacts db)"
  shows "Database_saveContact ph np nm co cx now db =
     Inr (next_contact_id db,
          db\<lparr>contacts := contacts db @
                 [\<lparr>id' = next_contact_id db, phone = ph, normalized_phone = np, name = nm,
                   company = co, context' = cx, created_at = now, updated_at = now\<rparr>],
             contacts_seq := next_contact_id db, last_insert_rowid := next_contact_id db\<rparr>)"
  using assms by (simp add: Database_saveContact_def Let_def)

lemma saveContact_unfold:
  assumes "available db"
  shows "saveContact ph np nm co cx now db =
     Inr (next_contact_id db,
          db\<lparr>contacts := filter (\<lambda>r. phone r \<noteq> ph \<and> normalized_phone r \<noteq> np) (contacts db) @
                 [\<lparr>id' = next_contact_id db, phone = ph, normalized_phone = np, name = nm,
                   company = co, context' = cx, created_at = now, updated_at = now\<rparr>],
             contacts_seq := next_contact_id db, last_insert_rowid := next_contact_id db\<rparr>)"
  using assms by (simp add: saveContact_def Let_def)

lemma Database_saveContact_available:
  "Database_saveContact ph np nm co cx now db = Inr (i, db') \<Longrightarrow> available db'"
  by (auto simp: Database_saveContact_def Let_def split: if_splits)

lemma Database_saveContact_total:
  "available db \<Longrightarrow> \<exists>i db'. Database_saveContact ph np nm co cx now db = Inr (i, db')"
  by (simp add: Database_saveContact_def Let_def)

lemma Database_saveContact_key_stored:
  assumes "Database_saveContact ph np nm co cx now db = Inr (i, db')"
    and "keys_normal db" and "normalizePhone ph = np"
  shows "list_ex (\<lambda>r. normalized_phone r = np) (contacts db')"
proof (cases "list_ex (\<lambda>r. phone r = ph \<or> normalized_phone r = np) (contacts db)")
  case True
  then obtain r where r: "r \<in> set (contacts db)" "phone r = ph \<or> normalized_phone r = np"
    by (auto simp: list_ex_iff)
  from assms(2) r(1) have "normalized_phone r = normalizePhone (phone r)"
    by (simp add: keys_normal_def list_all_iff)
  with r(2) assms(3) have "normalized_phone r = np" by auto
  with r(1) have "list_ex (\<lambda>r. normalized_phone r = np) (contacts db)"
    by (auto simp: list_ex_iff)
  with assms(1) True show ?thesis
    by (auto simp: Database_saveContact_def split: if_splits)
next
  case False
  with assms(1) show ?thesis
    by (auto simp: Database_saveContact_def Let_def split: if_splits)
qed

text \<open>
  Claim C1 holds of the \<open>INSERT OR IGNORE\<close> copies of \<open>saveContact\<close> and fails for the
  \<open>saveContact\<close> of server.js. With \<open>INSERT OR IGNORE\<close>: when the store holds a row with the
  normalized phone \<open>n\<close> after the first call, the second call inserts nothing and leaves
  both tables and \<open>lastID\<close> as they were; such a row is there whenever the keys of the
  store are the normal forms of their originals and \<open>n\<close> is the normal form of \<open>p1\<close>; and
  when neither \<open>p1\<close> nor \<open>n\<close> was stored before, the one row with \<open>n\<close> holds \<open>p1\<close> and the name,
  company and context of the first call. With the \<open>INSERT OR REPLACE\<close> of server.js the one
  row with \<open>n\<close> after the two calls holds \<open>p2\<close> and the name, company and context of the
  second call, under an id above every id there was.
\<close>

theorem saveContact_twice:
  assumes "available db"
  shows "(\<exists>i1 db1 i2 db2.
            Database_saveContact p1 n a1 c1 x1 t1 db = Inr (i1, db1)
          \<and> Database_saveContact p2 n a2 c2 x2 t2 db1 = Inr (i2, db2)
          \<and> (list_ex (\<lambda>r. normalized_phone r = n) (contacts db1) \<longrightarrow>
                contacts db2 = contacts db1 \<and> parsed_messages db2 = parsed_messages db1
                \<and> last_insert_rowid db2 = last_insert_rowid db1)
          \<and> (keys_normal db \<and> normalizePhone p1 = n \<longrightarrow>
                list_ex (\<lambda>r. normalized_phone r = n) (contacts db1))
          \<and> (\<not> list_ex (\<lambda>r. phone r = p1 \<or> normalized_phone r = n) (contacts db) \<longrightarrow>
                contacts db2 = contacts db1 \<and>
                filter (\<lambda>r. normalized_phone r = n) (contacts db2) =
                  [\<lparr>id' = i1, phone = p1, normalized_phone = n, name = a1, company = c1,
                    context' = x1, created_at = t1, updated_at = t1\<rparr>]))
       \<and> (\<exists>i1 db1 i2 db2.
            saveContact p1 n a1 c1 x1 t1 db = Inr (i1, db1)
          \<and> saveContact p2 n a2 c2 x2 t2 db1 = Inr (i2, db2)
          \<and> filter (\<lambda>r. normalized_phone r = n) (contacts db2) =
                  [\<lparr>id' = i2, phone = p2, normalized_phone = n, name = a2, company = c2,
                    context' = x2, created_at = t2, updated_at = t2\<rparr>]
          \<and> i1 < i2 \<and> list_all (\<lambda>r. id' r < i2) (contacts db)
          \<and> list_all (\<lambda>r. id' r < i2) (contacts db1))"
proof (rule conjI)
  obtain i1 db1 where s1: "Database_saveContact p1 n a1 c1 x1 t1 db = Inr (i1, db1)"
    using Database_saveContact_total [OF assms] by blast
  have av1: "available db1" using s1 by (rule Database_saveContact_available)
  obtain i2 db2 where s2: "Database_saveContact p2 n a2 c2 x2 t2 db1 = Inr (i2, db2)"
    using Database_saveContact_total [OF av1] by blast
  have noop: "contacts db2 = contacts db1 \<and> parsed_messages db2 = parsed_messages db1
                \<and> last_insert_rowid db2 = last_insert_rowid db1"
    if "list_ex (\<lambda>r. normalized_phone r = n) (contacts db1)"
  proof -
    from that have "list_ex (\<lambda>r. phone r = p2 \<or> normalized_phone r = n) (contacts db1)"
      by (auto simp: list_ex_iff)
    from Database_saveContact_ignored [OF av1 this] s2 show ?thesis by auto
  qed
  have reach: "list_ex (\<lambda>r. normalized_phone r = n) (contacts db1)"
    if "keys_normal db \<and> normalizePhone p1 = n"
    using Database_saveContact_key_stored [OF s1] that by blast
  have fresh: "contacts db2 = contacts db1 \<and> filter (\<lambda>r. normalized_phone r = n) (contacts db2) =
                  [\<lparr>id' = i1, phone = p1, normalized_phone = n, name = a1, company = c1,
                    context' = x1, created_at = t1, updated_at = t1\<rparr>]"
    if f: "\<not> list_ex (\<lambda>r. phone r = p1 \<or> normalized_phone r = n) (contacts db)"
  proof -
    from Database_saveContact_inserted [OF assms f] s1
    have i1: "i1 = next_contact_id db"
      and c1: "contacts db1 = contacts db @
                 [\<lparr>id' = next_contact_id db, phone = p1, normalized_phone = n, name = a1,
                   company = c1, context' = x1, created_at = t1, updated_at = t1\<rparr>]"
      by auto
    from f have e: "filter (\<lambda>r. normalized_phone r = n) (contacts db) = []"
      by (auto simp: list_ex_iff filter_empty_conv)
    have "list_ex (\<lambda>r. normalized_phone r = n) (contacts db1)" unfolding c1 by simp
    from noop [OF this] have "contacts db2 = contacts db1" by simp
    then show ?thesis by (simp add: c1 e i1)
  qed
  from s1 s2 noop reach fresh
  show "\<exists>i1 db1 i2 db2.
            Database_saveContact p1 n a1 c1 x1 t1 db = Inr (i1, db1)
          \<and> Database_saveContact p2 n a2 c2 x2 t2 db1 = Inr (i2, db2)
          \<and> (list_ex (\<lambda>r. normalized_phone r = n) (contacts db1) \<longrightarrow>
                contacts db2 = contacts db1 \<and> parsed_messages db2 = parsed_messages db1
                \<and> last_insert_rowid db2 = last_insert_rowid db1)
          \<and> (keys_normal db \<and> normalizePhone p1 = n \<longrightarrow>
                list_ex (\<lambda>r. normalized_phone r = n) (contacts db1))
          \<and> (\<not> list_ex (\<lambda>r. phone r = p1 \<or> normalized_phone r = n) (contacts db) \<longrightarrow>
                contacts db2 = contacts db1 \<and>
                filter (\<lambda>r. normalized_phone r = n) (contacts db2) =
                  [\<lparr>id' = i1, phone = p1, normalized_phone = n, name = a1, company = c1,
                    context' = x1, created_at = t1, updated_at = t1\<rparr>])"
    by blast
next
  let ?db1 = "snd (projr (saveContact p1 n a1 c1 x1 t1 db))"
  have s1: "saveContact p1 n a1 c1 x1 t1 db = Inr (next_contact_id db, ?db1)"
    by (simp add: saveContact_unfold [OF assms])
  have av1: "available ?db1" by (simp add: saveContact_unfold [OF assms] assms)
  let ?db2 = "snd (projr (saveContact p2 n a2 c2 x2 t2 ?db1))"
  have s2: "saveContact p2 n a2 c2 x2 t2 ?db1 = Inr (next_contact_id ?db1, ?db2)"
    by (simp add: saveContact_unfold [OF av1])
  have f: "filter (\<lambda>r. normalized_phone r = n) (contacts ?db2) =
                  [\<lparr>id' = next_contact_id ?db1, phone = p2, normalized_phone = n, name = a2,
                    company = c2, context' = x2, created_at = t2, updated_at = t2\<rparr>]"
    by (simp add: saveContact_unfold [OF av1] filter_empty_conv)
  have seq1: "contacts_seq ?db1 = next_contact_id db"
    by (simp add: saveContact_unfold [OF assms])
  have lt: "next_contact_id db < next_contact_id ?db1"
    using next_contact_id_fresh(1) [of ?db1] unfolding seq1 .
  have new1: "list_all (\<lambda>r. id' r < next_contact_id ?db1) (contacts ?db1)"
    unfolding list_all_iff using next_contact_id_fresh(2) [of _ ?db1] by blast
  have "list_all (\<lambda>r. id' r < next_contact_id db) (contacts db)"
    unfolding list_all_iff using next_contact_id_fresh(2) [of _ db] by blast
  with lt have new0: "list_all (\<lambda>r. id' r < next_contact_id ?db1) (contacts db)"
    unfolding list_all_iff by fastforce
  from s1 s2 f lt new0 new1 show "\<exists>i1 db1 i2 db2.
            saveContact p1 n a1 c1 x1 t1 db = Inr (i1, db1)
          \<and> saveContact p2 n a2 c2 x2 t2 db1 = Inr (i2, db2)
          \<and> filter (\<lambda>r. normalized_phone r = n) (contacts db2) =
                  [\<lparr>id' = i2, phone = p2, normalized_phone = n, name = a2, company = c2,
                    context' = x2, created_at = t2, updated_at = t2\<rparr>]
          \<and> i1 < i2 \<and> list_all (\<lambda>r. id' r < i2) (contacts db)
          \<and> list_all (\<lambda>r. id' r < i2) (contacts db1)"
    by blast
qed

theorem saveContact_twice_witness:
  "available empty_store
   \<and> (\<exists>i1 db1 i2 db2.
        Database_saveContact (js ''89991234567'') (js ''+79991234567'') (Some (js ''Ann''))
          None None 1 empty_store = Inr (i1, db1)
      \<and> Database_saveContact (js ''+79991234567'') (js ''+79991234567'') (Some (js ''Bob''))
          None None 2 db1 = Inr (i2, db2)
      \<and> contacts db2 = contacts db1
      \<and> filter (\<lambda>r. normalized_phone r = js ''+79991234567'') (contacts db2) =
           [\<lparr>id' = i1, phone = js ''89991234567'', normalized_phone = js ''+79991234567'',
             name = Some (js ''Ann''), company = None, context' = None, created_at = 1,
             updated_at = 1\<rparr>])
   \<and> contacts (snd (projr (saveContact (js ''+79991234567'') (js ''+79991234567'')
       (Some (js ''Bob'')) None None 2
       (snd (projr (saveContact (js ''89991234567'') (js ''+79991234567'')
          (Some (js ''Ann'')) None None 1 empty_store)))))) =
     [\<lparr>id' = 2, phone = js ''+79991234567'', normalized_phone = js ''+79991234567'',
       name = Some (js ''Bob''), company = None, context' = None, created_at = 2,
       updated_at = 2\<rparr>]"
proof -
  have a: "available empty_store" by (simp add: empty_store_def)
  have f: "\<not> list_ex (\<lambda>r. phone r = js ''89991234567'' \<or> normalized_phone r = js ''+79991234567'')
      (contacts empty_store)"
    by (simp add: empty_store_def)
  have e: "contacts (snd (projr (saveContact (js ''+79991234567'') (js ''+79991234567'')
       (Some (js ''Bob'')) None None 2
       (snd (projr (saveContact (js ''89991234567'') (js ''+79991234567'')
          (Some (js ''Ann'')) None None 1 empty_store)))))) =
     [\<lparr>id' = 2, phone = js ''+79991234567'', normalized_phone = js ''+79991234567'',
       name = Some (js ''Bob''), company = None, context' = None, created_at = 2,
       updated_at = 2\<rparr>]"
    by code_simp
  from saveContact_twice [OF a, of "js ''89991234567''" "js ''+79991234567''" "Some (js ''Ann'')"
      None None 1 "js ''+79991234567''" "Some (js ''Bob'')" None None 2] f a e
  show ?thesis by blast
qed

section \<open>updateContact and the PUT handlers\<close>

lemma fold_set_column_frame:
  "id' (fold set_column us r) = id' r \<and> phone (fold set_column us r) = phone r
   \<and> normalized_phone (fold set_column us r) = normalized_phone r
   \<and> created_at (fold set_column us r) = created_at r
   \<and> updated_at (fold set_column us r) = updated_at r"
proof (induction us arbitrary: r)
  case Nil
  show ?case by simp
next
  case (Cons u us)
  obtain k v where u: "u = (k, v)" by (cases u)
  show ?case using Cons [of "set_column u r"] unfolding u by (cases k) simp_all
qed

lemma updateContact_unfold:
  "available db \<Longrightarrow> updateContact i us now db =
     Inr (length (filter (\<lambda>r. id' r = i) (contacts db)),
          db\<lparr>contacts := map (\<lambda>r. if id' r = i then (fold set_column us r)\<lparr>updated_at := now\<rparr> else r)
                 (contacts db)\<rparr>)"
  by (simp add: updateContact_def Let_def)

lemma updateContact_name:
  assumes "available db"
  shows "updateContact i [(Name, x)] now db =
     Inr (length (filter (\<lambda>r. id' r = i) (contacts db)),
          db\<lparr>contacts := map (\<lambda>r. if id' r = i then r\<lparr>name := x, updated_at := now\<rparr> else r)
                 (contacts db)\<rparr>)"
  by (simp add: updateContact_unfold [OF assms])

lemma put_contact_keys:
  "list_all2 same_keys (contacts db) (contacts (snd (put_contact i body now db)))"
proof (cases "available db")
  case False
  then show ?thesis
    by (simp add: put_contact_def updateContact_def list_all2_same same_keys_def list.rel_refl)
next
  case True
  have "list_all2 same_keys (contacts db)
     (map (\<lambda>r. if id' r = i then (fold set_column (updates_of body) r)\<lparr>updated_at := now\<rparr> else r)
        (contacts db))"
    unfolding list_all2_map2
    by (rule list.rel_refl) (simp add: same_keys_def fold_set_column_frame)
  then show ?thesis
    by (simp add: put_contact_def updateContact_unfold [OF True])
qed

lemma updateContact_absent:
  assumes "available db" and "i \<notin> id' ` set (contacts db)"
  shows "updateContact i us now db = Inr (0, db)"
proof -
  from assms(2) have f: "filter (\<lambda>r. id' r = i) (contacts db) = []"
    by (auto simp: filter_empty_conv)
  from assms(2) have m: "map (\<lambda>r. if id' r = i then (fold set_column us r)\<lparr>updated_at := now\<rparr> else r)
                 (contacts db) = contacts db"
    by (intro map_idI) auto
  show ?thesis unfolding updateContact_unfold [OF assms(1)] f m by simp
qed

text \<open>
  Claim C8: with the store available, \<open>updateContact i {name: x}\<close> resolves with the number
  of rows whose id is \<open>i\<close>; every row keeps its place, its id, phone, normalized phone,
  company, context and creation time; a row with another id is unchanged, the row with id
  \<open>i\<close> has the new name and the new \<open>updated_at\<close>; the other table is untouched. And whatever
  the body of a PUT request, the handler leaves id, phone, normalized phone and creation
  time of every row as they were.
\<close>

theorem updateContact_name_frame:
  assumes "available db"
  shows "\<exists>db'. updateContact i [(Name, x)] now db =
            Inr (length (filter (\<lambda>r. id' r = i) (contacts db)), db')
     \<and> list_all2 (\<lambda>r r'. same_but_name_and_updated_at r r'
           \<and> (if id' r = i then name r' = x \<and> updated_at r' = now else r' = r))
         (contacts db) (contacts db')
     \<and> parsed_messages db' = parsed_messages db
     \<and> list_all2 same_keys (contacts db) (contacts (snd (put_contact i body now db)))"
proof -
  let ?db' = "db\<lparr>contacts := map (\<lambda>r. if id' r = i then r\<lparr>name := x, updated_at := now\<rparr> else r)
                 (contacts db)\<rparr>"
  have "list_all2 (\<lambda>r r'. same_but_name_and_updated_at r r'
           \<and> (if id' r = i then name r' = x \<and> updated_at r' = now else r' = r))
         (contacts db) (contacts ?db')"
    by (simp add: list_all2_map2 same_but_name_and_updated_at_def list.rel_refl)
  with updateContact_name [OF assms, of i x now] put_contact_keys [of db i body now]
  show ?thesis by auto
qed

theorem updateContact_name_frame_witness:
  "updateContact 1 [(Name, Some (js ''Ivan''))] 30 two_contacts =
     Inr (1, two_contacts\<lparr>contacts := [ivan\<lparr>name := Some (js ''Ivan''), updated_at := 30\<rparr>,
                                          anonymous]\<rparr>)"
proof -
  have a: "available two_contacts" by (simp add: two_contacts_def)
  have "updateContact 1 [(Name, Some (js ''Ivan''))] 30 two_contacts =
     Inr (1, two_contacts\<lparr>contacts := [ivan\<lparr>name := Some (js ''Ivan''), updated_at := 30\<rparr>,
                                          anonymous]\<rparr>)"
    by (simp add: updateContact_def two_contacts_def ivan_def anonymous_def Let_def)
  with updateContact_name_frame [OF a, of 1 "Some (js ''Ivan'')" 30] show ?thesis by simp
qed

text \<open>
  Claim C2 holds of the store and of the handler of server.js, and fails for the handler
  of the second server file: for an id that no contact has, \<open>updateContact\<close> resolves with
  0 and changes nothing, the handler of server.js answers 404 with \<open>success: false\<close> and an
  error text, and the handler of the second file answers 200 with \<open>success: true\<close>.
\<close>

theorem put_contact_missing_id:
  assumes "available db" and "i \<notin> id' ` set (contacts db)"
  shows "updateContact i (updates_of body) now db = Inr (0, db)
     \<and> put_contact i body now db =
         (\<lparr>status = 404, success = False, message = None,
           error = Some (js ''Contact not found or no changes made'')\<rparr>, db)
     \<and> put_contact_legacy i body now db =
         (\<lparr>status = 200, success = True, message = None, error = None\<rparr>, db)"
  by (simp add: put_contact_def put_contact_legacy_def updateContact_absent [OF assms])

theorem put_contact_missing_id_witness:
  "put_contact_legacy 999
     \<lparr>body_name = Some (Some (js ''X'')), body_company = None, body_context = None\<rparr> 30
     two_contacts =
     (\<lparr>status = 200, success = True, message = None, error = None\<rparr>, two_contacts)
   \<and> put_contact 999
     \<lparr>body_name = Some (Some (js ''X'')), body_company = None, body_context = None\<rparr> 30
     two_contacts =
     (\<lparr>status = 404, success = False, message = None,
       error = Some (js ''Contact not found or no changes made'')\<rparr>, two_contacts)"
proof -
  have a: "available two_contacts" by (simp add: two_contacts_def)
  have b: "999 \<notin> id' ` set (contacts two_contacts)"
    by (simp add: two_contacts_def ivan_def anonymous_def)
  from put_contact_missing_id [OF a b] show ?thesis by blast
qed

section \<open>searchContacts\<close>















lemma uint_eq_numeral:
  "uint (c :: jschar) = 0x25 \<longleftrightarrow> c = 0x25"
  "uint (c :: jschar) = 0x5F \<longleftrightarrow> c = 0x5F"
  "uint (c :: jschar) = 0 \<longleftrightarrow> c = 0"
proof -
  have conv: "\<And>n. uint c = n \<Longrightarrow> c = of_int n" by auto
  show "uint c = 0x25 \<longleftrightarrow> c = 0x25" using conv [of "0x25"] by auto
  show "uint c = 0x5F \<longleftrightarrow> c = 0x5F" using conv [of "0x5F"] by auto
  show "uint c = 0 \<longleftrightarrow> c = 0" by (simp add: uint_0_iff)
qed















text \<open>
  The underscore stands for one code point: a surrogate pair between \<open>a\<close> and \<open>b\<close> is
  matched by \<open>a_b\<close> and not by \<open>a__b\<close>.
\<close>

lemma like_underscore_code_point:
  "sql_like (Some [0x61, 0xD83D, 0xDE00, 0x62]) (js ''a_b'')
   \<and> \<not> sql_like (Some [0x61, 0xD83D, 0xDE00, 0x62]) (js ''a__b'')"
proof -
  have a: "sql_like (Some [0x61, 0xD83D, 0xDE00, 0x62]) (js ''a_b'')" by code_simp
  have b: "\<not> sql_like (Some [0x61, 0xD83D, 0xDE00, 0x62]) (js ''a__b'')" by code_simp
  from a b show ?thesis by blast
qed

section \<open>The message handler and the audit table\<close>

lemma saveContact_effect:
  assumes "saveContact ph np nm co cx now db = Inr (i, db')"
  shows "available db' \<and> parsed_messages db' = parsed_messages db
     \<and> set (contacts db') \<subseteq> insert \<lparr>id' = i, phone = ph, normalized_phone = np, name = nm,
           company = co, context' = cx, created_at = now, updated_at = now\<rparr> (set (contacts db))"
  using assms by (auto simp: saveContact_def Let_def split: if_splits)

lemma saveContact_total:
  "available db \<Longrightarrow> \<exists>i db'. saveContact ph np nm co cx now db = Inr (i, db')"
  by (simp add: saveContact_def Let_def)

lemma findContactByPhone_total:
  "available db \<Longrightarrow> \<exists>found. findContactByPhone np db = Inr found"
  by (simp add: findContactByPhone_def)

lemma resolve_contact_effect:
  "parsed_messages (snd (resolve_contact text now ph db)) = parsed_messages db
   \<and> (\<forall>r\<in>set (contacts (snd (resolve_contact text now ph db))).
         r \<in> set (contacts db) \<or> normalized_phone r = normalized ph)"
proof (cases "findContactByPhone (normalized ph) db")
  case (Inl e)
  then show ?thesis by (simp add: resolve_contact_def)
next
  case (Inr found)
  show ?thesis
  proof (cases found)
    case (Some c)
    with Inr show ?thesis by (simp add: resolve_contact_def)
  next
    case None
    show ?thesis
    proof (cases "saveContact (original ph) (normalized ph) None None
                  (Some (substring2 text 0 200)) now db")
      case (Inl e)
      with Inr None show ?thesis by (simp add: resolve_contact_def)
    next
      case (Inr idb)
      obtain i db' where idb: "idb = (i, db')" by (cases idb)
      from saveContact_effect [OF Inr [unfolded idb]]
      have "parsed_messages db' = parsed_messages db"
        and "\<forall>r\<in>set (contacts db'). r \<in> set (contacts db) \<or> normalized_phone r = normalized ph"
        by auto
      with \<open>findContactByPhone (normalized ph) db = Inr found\<close> None Inr idb
      show ?thesis by (simp add: resolve_contact_def)
    qed
  qed
qed

lemma resolve_contact_available:
  assumes "available db"
  shows "\<exists>found. fst (resolve_contact text now ph db) = Inr found
     \<and> available (snd (resolve_contact text now ph db))"
proof -
  from findContactByPhone_total [OF assms] obtain found where
    f: "findContactByPhone (normalized ph) db = Inr found" by blast
  show ?thesis
  proof (cases found)
    case (Some c)
    with f assms show ?thesis by (simp add: resolve_contact_def)
  next
    case None
    from saveContact_total [OF assms] obtain i db' where
      s: "saveContact (original ph) (normalized ph) None None
                  (Some (substring2 text 0 200)) now db = Inr (i, db')" by blast
    from saveContact_effect [OF s] have av: "available db'" by simp
    from findContactByPhone_total [OF av] obtain found' where
      "findContactByPhone (normalized ph) db' = Inr found'" by blast
    with f None s av show ?thesis by (simp add: resolve_contact_def)
  qed
qed

lemma message_loop_effect:
  "parsed_messages (snd (message_loop text now phs rs db)) = parsed_messages db
   \<and> (\<forall>r\<in>set (contacts (snd (message_loop text now phs rs db))).
         r \<in> set (contacts db) \<or> normalized_phone r \<in> normalized ` set phs)"
proof (induction phs arbitrary: rs db)
  case Nil
  show ?case by simp
next
  case (Cons ph phs)
  obtain res db' where r: "resolve_contact text now ph db = (res, db')"
    by (cases "resolve_contact text now ph db")
  from resolve_contact_effect [of "text" now ph db] r
  have p: "parsed_messages db' = parsed_messages db"
    and c: "\<forall>r\<in>set (contacts db'). r \<in> set (contacts db) \<or> normalized_phone r = normalized ph"
    by simp_all
  show ?case
  proof (cases res)
    case (Inl e)
    with r p c show ?thesis by auto
  next
    case (Inr found)
    from Cons [of "rs @ [response_for ph found]" db'] r Inr p c
    show ?thesis by auto
  qed
qed

lemma message_loop_available:
  assumes "available db"
  shows "\<exists>blocks. fst (message_loop text now phs rs db) = Inr (rs @ blocks)
     \<and> map shown_phone blocks = map normalized phs"
  using assms
proof (induction phs arbitrary: rs db)
  case Nil
  then show ?case by simp
next
  case (Cons ph phs)
  obtain res db' where r: "resolve_contact text now ph db = (res, db')"
    by (cases "resolve_contact text now ph db")
  from resolve_contact_available [OF Cons.prems, of "text" now ph] r
  obtain found where f: "res = Inr found" and av: "available db'" by auto
  from Cons.IH [OF av, of "rs @ [response_for ph found]"] obtain blocks where
    b: "fst (message_loop text now phs (rs @ [response_for ph found]) db') =
          Inr ((rs @ [response_for ph found]) @ blocks)"
       "map shown_phone blocks = map normalized phs" by blast
  have "fst (message_loop text now (ph # phs) rs db) = Inr (rs @ (response_for ph found # blocks))
     \<and> map shown_phone (response_for ph found # blocks) = map normalized (ph # phs)"
    using r f b by (simp add: response_for_def)
  then show ?case by blast
qed

lemma on_message_parsed: "parsed_messages (snd (on_message text now db)) = parsed_messages db"
proof -
  have "parsed_messages (snd (message_loop text now (parsePhoneNumbers text) [] db)) =
      parsed_messages db"
    using message_loop_effect by blast
  then show ?thesis
    by (auto simp: on_message_def Let_def split: prod.splits sum.splits)
qed

lemma trim_empty_iff: "trim s = [] \<longleftrightarrow> list_all is_space s"
proof
  assume "list_all is_space s"
  then show "trim s = []" by (auto simp: trim_def list_all_iff dest: set_dropWhileD)
next
  assume "trim s = []"
  then have a: "\<forall>x\<in>set (dropWhile is_space s). is_space x"
    by (simp add: trim_def dropWhile_eq_Nil_conv)
  have "dropWhile is_space s = []"
  proof (rule ccontr)
    assume ne: "dropWhile is_space s \<noteq> []"
    then have "\<not> is_space (hd (dropWhile is_space s))" by (rule hd_dropWhile)
    moreover from ne have "hd (dropWhile is_space s) \<in> set (dropWhile is_space s)" by simp
    ultimately show False using a by blast
  qed
  then show "list_all is_space s" by (simp add: list_all_iff)
qed

lemma phones_text_not_blank:
  assumes "parsePhoneNumbers text \<noteq> []"
  shows "trim text \<noteq> []"
proof
  assume "trim text = []"
  then have sp: "list_all is_space text" by (simp add: trim_empty_iff)
  from assms obtain m where m: "m \<in> set (match_all phoneRegex text)"
    by (cases "match_all phoneRegex text") (auto simp: parsePhoneNumbers_unfold)
  have "scan phoneRegex text (match_all phoneRegex text)"
    by (rule scan_match_all [OF phone_lang_nonempty])
  then have "\<forall>m\<in>set (match_all phoneRegex text). set m \<subseteq> set text"
    by (induction rule: scan.induct) auto
  with m have sub: "set m \<subseteq> set text" by blast
  from match_all_phone_lang [OF m] obtain d1 mid d2 where
    "m = d1 # mid @ [d2] \<or> m = 0x2B # d1 # mid @ [d2]" "is_digit d1"
    unfolding phone_lang by blast
  then have "d1 \<in> set m" "\<not> is_space d1" by (auto simp: digit_not_space)
  with sub sp show False by (auto simp: list_all_iff)
qed

lemma on_message_reply:
  assumes "available db" and "parsePhoneNumbers text \<noteq> []"
  shows "\<exists>blocks. fst (on_message text now db) = Reply blocks
     \<and> map shown_phone blocks = map normalized (parsePhoneNumbers text)"
proof -
  from message_loop_available [OF assms(1), of "text" now "parsePhoneNumbers text" "[]"]
  obtain blocks where b: "fst (message_loop text now (parsePhoneNumbers text) [] db) = Inr blocks"
    "map shown_phone blocks = map normalized (parsePhoneNumbers text)" by auto
  from b(2) assms(2) have ne: "blocks \<noteq> []" by auto
  from b(1) obtain db' where "message_loop text now (parsePhoneNumbers text) [] db = (Inr blocks, db')"
    by (cases "message_loop text now (parsePhoneNumbers text) [] db") auto
  with ne assms(2) phones_text_not_blank [OF assms(2)] b(2)
  have "fst (on_message text now db) = Reply blocks"
    by (simp add: on_message_def Let_def)
  with b(2) show ?thesis by blast
qed

lemma on_message_keys:
  assumes "keys_clean db"
  shows "keys_clean (snd (on_message text now db))"
proof -
  have n: "\<And>k. k \<in> normalized ` set (parsePhoneNumbers text) \<Longrightarrow> list_all digit_or_plus k"
    by (auto simp: parsePhoneNumbers_unfold normalizePhone_chars)
  have "\<forall>r\<in>set (contacts (snd (message_loop text now (parsePhoneNumbers text) [] db))).
         r \<in> set (contacts db) \<or> normalized_phone r \<in> normalized ` set (parsePhoneNumbers text)"
    using message_loop_effect by blast
  with n assms
  have "keys_clean (snd (message_loop text now (parsePhoneNumbers text) [] db))"
    unfolding keys_clean_def list_all_iff by blast
  with assms show ?thesis
    by (auto simp: on_message_def Let_def split: prod.splits sum.splits)
qed

lemma logParsedMessage_appends:
  assumes "available db"
  shows "\<exists>i db'. logParsedMessage m c k txt now db = Inr (i, db')
     \<and> parsed_messages db' = parsed_messages db @
          [\<lparr>pm_id = i, message_id = m, chat_id = c, contact_id = k, original_text = txt,
            pm_created_at = now\<rparr>]
     \<and> contacts db' = contacts db"
  using assms by (simp add: logParsedMessage_def Let_def)

text \<open>
  Claim C3, as stated, fails: the handler never calls \<open>logParsedMessage\<close>. For a text with
  one phone it stores the contact and replies, and the audit table is as empty as before.
\<close>

theorem on_message_no_audit_counterexample:
  "length (parsePhoneNumbers (js ''call me at 8-999-123-45-67 please'')) = 1
   \<and> parsed_messages (snd (on_message (js ''call me at 8-999-123-45-67 please'') 5 empty_store)) = []
   \<and> fst (on_message (js ''call me at 8-999-123-45-67 please'') 5 empty_store) =
       Reply [\<lparr>shown_phone = js ''+79991234567'', shown_name = None, shown_company = None\<rparr>]
   \<and> contacts (snd (on_message (js ''call me at 8-999-123-45-67 please'') 5 empty_store)) =
       [\<lparr>id' = 1, phone = js ''8-999-123-45-67'', normalized_phone = js ''+79991234567'',
         name = None, company = None,
         context' = Some (js ''call me at 8-999-123-45-67 please''), created_at = 5,
         updated_at = 5\<rparr>]"
proof -
  have a: "length (parsePhoneNumbers (js ''call me at 8-999-123-45-67 please'')) = 1"
    by code_simp
  have b: "parsed_messages (snd (on_message (js ''call me at 8-999-123-45-67 please'') 5
      empty_store)) = []"
    by code_simp
  have c: "fst (on_message (js ''call me at 8-999-123-45-67 please'') 5 empty_store) =
       Reply [\<lparr>shown_phone = js ''+79991234567'', shown_name = None, shown_company = None\<rparr>]"
    by code_simp
  have d: "contacts (snd (on_message (js ''call me at 8-999-123-45-67 please'') 5 empty_store)) =
       [\<lparr>id' = 1, phone = js ''8-999-123-45-67'', normalized_phone = js ''+79991234567'',
         name = None, company = None,
         context' = Some (js ''call me at 8-999-123-45-67 please''), created_at = 5,
         updated_at = 5\<rparr>]"
    by code_simp
  from a b c d show ?thesis by blast
qed

text \<open>
  Claim C3, amended: the message handler of server.js appends no audit record; whatever
  the text and the store, \<open>parsed_messages\<close> is after the handler what it was before. With
  the store available, a text in which the extractor finds a phone is answered with one
  block for each extracted phone, in the order of extraction. \<open>logParsedMessage\<close> of the
  database module, which no handler calls, appends one record with the values it is given
  and leaves the contacts alone.
\<close>

theorem on_message_no_audit:
  "parsed_messages (snd (on_message text now db)) = parsed_messages db
   \<and> (available db \<and> parsePhoneNumbers text \<noteq> [] \<longrightarrow>
        (\<exists>blocks. fst (on_message text now db) = Reply blocks
           \<and> map shown_phone blocks = map normalized (parsePhoneNumbers text)))
   \<and> (available db \<longrightarrow>
        (\<exists>i db'. logParsedMessage m c k txt now db = Inr (i, db')
           \<and> parsed_messages db' = parsed_messages db @
                [\<lparr>pm_id = i, message_id = m, chat_id = c, contact_id = k, original_text = txt,
                  pm_created_at = now\<rparr>]
           \<and> contacts db' = contacts db))"
  using on_message_parsed on_message_reply logParsedMessage_appends by blast

theorem on_message_no_audit_witness:
  "available empty_store
   \<and> parsePhoneNumbers (js ''call me at 8-999-123-45-67 please'') \<noteq> []
   \<and> (\<exists>blocks. fst (on_message (js ''call me at 8-999-123-45-67 please'') 5 empty_store) =
          Reply blocks
        \<and> map shown_phone blocks =
          map normalized (parsePhoneNumbers (js ''call me at 8-999-123-45-67 please'')))
   \<and> parsed_messages (snd (on_message (js ''call me at 8-999-123-45-67 please'') 5 empty_store)) =
        parsed_messages empty_store"
proof -
  have a: "available empty_store" by (simp add: empty_store_def)
  have "length (parsePhoneNumbers (js ''call me at 8-999-123-45-67 please'')) = 1"
    by code_simp
  then have b: "parsePhoneNumbers (js ''call me at 8-999-123-45-67 please'') \<noteq> []" by auto
  from on_message_no_audit [of "js ''call me at 8-999-123-45-67 please''" 5 empty_store] a b
  show ?thesis by blast
qed

text \<open>
  Claim C10: every character of \<open>normalizePhone raw\<close> is a digit or a plus sign, so none
  is white space, a hyphen or a parenthesis; and the message handler keeps a store whose
  normalized keys are all of that kind in that state.
\<close>

theorem normalizePhone_charset:
  "list_all digit_or_plus (normalizePhone raw)
   \<and> list_all (\<lambda>c. \<not> is_space c \<and> c \<noteq> 0x2D \<and> c \<noteq> 0x28 \<and> c \<noteq> 0x29) (normalizePhone raw)
   \<and> (keys_clean db \<longrightarrow> keys_clean (snd (on_message text now db)))"
proof -
  have "\<And>c. digit_or_plus c \<Longrightarrow> \<not> is_space c \<and> c \<noteq> 0x2D \<and> c \<noteq> 0x28 \<and> c \<noteq> 0x29"
    unfolding digit_or_plus_def using digit_not_space plus_not_space
    by (auto simp: is_digit_def)
  with normalizePhone_chars [of raw]
  have "list_all (\<lambda>c. \<not> is_space c \<and> c \<noteq> 0x2D \<and> c \<noteq> 0x28 \<and> c \<noteq> 0x29) (normalizePhone raw)"
    unfolding list_all_iff by blast
  with normalizePhone_chars [of raw] on_message_keys [of db "text" now] show ?thesis by blast
qed

theorem normalizePhone_charset_witness:
  "keys_clean empty_store
   \<and> keys_clean (snd (on_message (js ''call me at 8-999-123-45-67 please'') 5 empty_store))
   \<and> list_all digit_or_plus (normalizePhone (js ''8 (999) 123-45-67''))"
proof -
  have a: "keys_clean empty_store" by (simp add: keys_clean_def empty_store_def)
  from normalizePhone_charset [of "js ''8 (999) 123-45-67''" empty_store
      "js ''call me at 8-999-123-45-67 please''" 5] a
  show ?thesis by blast
qed

end
